theory Spec2Isabelle
  imports Main "HOL-Library.AList" "HOL-Library.Char_ord" "HOL-Library.List_Lexorder"
begin

section \<open>Python primitives used by Components/config.py\<close>

text \<open>Exceptions the modelled code can raise; a raising call returns \<open>Inl\<close> of one of them.\<close>

datatype error = IndexError | TypeError | ValueError | UnboundLocalError | AssertionError | AttributeError

text \<open>\<open>str(n)\<close> for a Python integer: decimal digits, with a leading minus sign below zero.\<close>

definition digit_chr :: "nat \<Rightarrow> char" where
  "digit_chr n = ''0123456789'' ! n"

fun digits_of :: "nat \<Rightarrow> string" where
  "digits_of n = (if n < 10 then [digit_chr n] else digits_of (n div 10) @ [digit_chr (n mod 10)])"

declare digits_of.simps [simp del]

definition str_int :: "int \<Rightarrow> string" where
  "str_int i = (if i < 0 then CHR ''-'' # digits_of (nat (- i)) else digits_of (nat i))"

section \<open>Action keys\<close>

definition ACTIONKEY_LEFT :: int where "ACTIONKEY_LEFT = 0"
definition ACTIONKEY_RIGHT :: int where "ACTIONKEY_RIGHT = 1"
definition ACTIONKEY_SELECT :: int where "ACTIONKEY_SELECT = 2"
definition ACTIONKEY_DELETE :: int where "ACTIONKEY_DELETE = 3"
definition ACTIONKEY_BACKSPACE :: int where "ACTIONKEY_BACKSPACE = 4"
definition ACTIONKEY_FIRST :: int where "ACTIONKEY_FIRST = 5"
definition ACTIONKEY_LAST :: int where "ACTIONKEY_LAST = 6"
definition ACTIONKEY_TOGGLE :: int where "ACTIONKEY_TOGGLE = 7"
definition ACTIONKEY_ASCII :: int where "ACTIONKEY_ASCII = 8"
definition ACTIONKEY_TIMEOUT :: int where "ACTIONKEY_TIMEOUT = 9"
definition ACTIONKEY_0 :: int where "ACTIONKEY_0 = 12"

text \<open>\<open>key in ACTIONKEY_NUMBERS\<close>, where \<open>ACTIONKEY_NUMBERS = range(12, 12 + 10)\<close>.\<close>

definition in_ACTIONKEY_NUMBERS :: "int \<Rightarrow> bool" where
  "in_ACTIONKEY_NUMBERS key \<longleftrightarrow> 12 \<le> key \<and> key < 12 + 10"

definition getKeyNumber :: "int \<Rightarrow> error + int" where
  "getKeyNumber key = (if in_ACTIONKEY_NUMBERS key then Inr (key - ACTIONKEY_0) else Inl AssertionError)"

section \<open>ConfigElement\<close>

text \<open>
  A persisted value. Below a \<open>ConfigElement\<close> it is a string; a \<open>ConfigSubsection\<close>
  has a dictionary of them, in insertion order. An element whose key names a whole
  subtree of the settings file is handed that dictionary as its \<open>saved_value\<close>.
\<close>

datatype saved = SStr string | SDict "(string \<times> saved) list"

text \<open>
  The attributes of the base class. \<open>el_value\<close> is \<open>_value\<close>, \<open>dflt\<close> is \<open>default\<close>.
  The notifier callbacks are external code: \<open>changed_calls\<close> counts the calls of
  \<open>changed()\<close>, \<open>changedFinal_calls\<close> those of \<open>changedFinal()\<close>.
\<close>

record 'v ConfigElement =
  el_value :: 'v
  dflt :: 'v
  lastValue :: "'v option"
  saved_value :: "saved option"
  save_disabled :: bool
  save_forced :: bool
  enabled :: bool
  callNotifiersOnSaveAndCancel :: bool
  changed_calls :: nat
  changedFinal_calls :: nat

definition changed :: "('v, 'a) ConfigElement_scheme \<Rightarrow> ('v, 'a) ConfigElement_scheme" where
  "changed s = s\<lparr>changed_calls := Suc (changed_calls s)\<rparr>"

definition changedFinal :: "('v, 'a) ConfigElement_scheme \<Rightarrow> ('v, 'a) ConfigElement_scheme" where
  "changedFinal s = s\<lparr>changedFinal_calls := Suc (changedFinal_calls s)\<rparr>"

section \<open>ConfigSequence\<close>

text \<open>
  \<open>end_calls\<close> counts the runs over \<open>endNotifier\<close> in \<open>validate\<close>.
\<close>

record ConfigSequence = "int list ConfigElement" +
  seperator :: string
  limits :: "(int \<times> int) list"
  marked_pos :: int
  end_calls :: nat

text \<open>
  The constructor (without a censor character): \<open>lastValue\<close> and \<open>default\<close> are the
  argument, and the assignment to \<open>value\<close> calls \<open>changed()\<close> once.
\<close>

definition ConfigSequence_init :: "string \<Rightarrow> (int \<times> int) list \<Rightarrow> int list \<Rightarrow> ConfigSequence" where
  "ConfigSequence_init sep lims d =
     \<lparr>el_value = d, dflt = d, lastValue = Some d, saved_value = None,
      save_disabled = False, save_forced = False, enabled = True,
      callNotifiersOnSaveAndCancel = False, changed_calls = 1, changedFinal_calls = 0,
      seperator = sep, limits = lims, marked_pos = 0, end_calls = 0\<rparr>"

text \<open>The two clamping statements of \<open>validate\<close> for one field.\<close>

definition clamp_field :: "int \<times> int \<Rightarrow> int \<Rightarrow> int" where
  "clamp_field lim v =
     (let v1 = (if v < fst lim then fst lim else v)
      in if v1 > snd lim then snd lim else v1)"

text \<open>
  The loop of \<open>validate\<close>: it walks \<open>_value\<close> with the counter \<open>num\<close>, reads
  \<open>limits[num]\<close> (IndexError when the limits are shorter than the value), clamps the
  field and adds the printed width of the upper bound to \<open>max_pos\<close>.
\<close>

fun validate_loop :: "int list \<Rightarrow> (int \<times> int) list \<Rightarrow> error + (int list \<times> int)" where
  "validate_loop [] ls = Inr ([], 0)"
| "validate_loop (v # vs) [] = Inl IndexError"
| "validate_loop (v # vs) (lim # ls) =
     (case validate_loop vs ls of
        Inl e \<Rightarrow> Inl e
      | Inr (vs', max_pos) \<Rightarrow> Inr (clamp_field lim v # vs', int (length (str_int (snd lim))) + max_pos))"

definition validate :: "'a ConfigSequence_scheme \<Rightarrow> error + 'a ConfigSequence_scheme" where
  "validate s =
     (case validate_loop (el_value s) (limits s) of
        Inl e \<Rightarrow> Inl e
      | Inr (vs', max_pos) \<Rightarrow>
          (let s1 = s\<lparr>el_value := vs'\<rparr>;
               s2 = (if marked_pos s1 \<ge> max_pos
                     then s1\<lparr>end_calls := Suc (end_calls s1), marked_pos := max_pos - 1\<rparr>
                     else s1);
               s3 = (if marked_pos s2 < 0 then s2\<lparr>marked_pos := 0\<rparr> else s2)
           in Inr s3))"

section \<open>ConfigClock\<close>

text \<open>
  \<open>increment\<close> and \<open>decrement\<close> index \<open>_value[0]\<close> and \<open>_value[1]\<close>; a value with
  fewer than two fields raises IndexError.
\<close>

definition increment :: "'a ConfigSequence_scheme \<Rightarrow> error + 'a ConfigSequence_scheme" where
  "increment s =
     (case el_value s of
        h # m # rest \<Rightarrow>
          Inr (changed (s\<lparr>el_value :=
                 (if m = 59 then (if h < 23 then h + 1 else 0) # 0 # rest
                  else h # (m + 1) # rest)\<rparr>))
      | _ \<Rightarrow> Inl IndexError)"

definition decrement :: "'a ConfigSequence_scheme \<Rightarrow> error + 'a ConfigSequence_scheme" where
  "decrement s =
     (case el_value s of
        h # m # rest \<Rightarrow>
          Inr (changed (s\<lparr>el_value :=
                 (if m = 0 then (if h > 0 then h - 1 else 23) # 59 # rest
                  else h # (m - 1) # rest)\<rparr>))
      | _ \<Rightarrow> Inl IndexError)"

text \<open>Calling a method \<open>n\<close> times in a row; the first exception ends the run.\<close>

fun repeat_call :: "nat \<Rightarrow> ('s \<Rightarrow> error + 's) \<Rightarrow> 's \<Rightarrow> error + 's" where
  "repeat_call 0 f s = Inr s"
| "repeat_call (Suc n) f s = (case f s of Inl e \<Rightarrow> Inl e | Inr s' \<Rightarrow> repeat_call n f s')"

section \<open>Python string functions\<close>

text \<open>
  \<open>int(s)\<close> for a string: blanks around the literal are dropped, one sign is allowed,
  and at least one decimal digit must follow; anything else raises ValueError. (The
  underscores that Python 3.6 accepts between digits are not modelled.)
\<close>

definition is_digit :: "char \<Rightarrow> bool" where
  "is_digit c \<longleftrightarrow> c \<in> set ''0123456789''"

definition is_space :: "char \<Rightarrow> bool" where
  "is_space c \<longleftrightarrow> c \<in> {CHR '' '', CHR 0x09, CHR 0x0A, CHR 0x0B, CHR 0x0C, CHR 0x0D}"

definition strip :: "string \<Rightarrow> string" where
  "strip s = rev (dropWhile is_space (rev (dropWhile is_space s)))"

definition digit_val :: "char \<Rightarrow> nat" where
  "digit_val c = of_char c - 48"

definition nat_of_digits :: "string \<Rightarrow> nat" where
  "nat_of_digits s = foldl (\<lambda>a c. 10 * a + digit_val c) 0 s"

definition py_int :: "string \<Rightarrow> error + int" where
  "py_int s =
     (let t = strip s;
          body = (case t of [] \<Rightarrow> [] | c # r \<Rightarrow> if c = CHR ''-'' \<or> c = CHR ''+'' then r else t)
      in if body = [] \<or> \<not> list_all is_digit body then Inl ValueError
         else if take 1 t = ''-'' then Inr (- int (nat_of_digits body))
         else Inr (int (nat_of_digits body)))"

text \<open>
  \<open>s.split(sep)\<close>: the pieces between the occurrences of \<open>sep\<close>, found from the left;
  an empty separator raises ValueError. \<open>cur\<close> is the piece being read.
\<close>

fun split_from :: "string \<Rightarrow> string \<Rightarrow> string \<Rightarrow> string list" where
  "split_from sep cur [] = [cur]"
| "split_from sep cur (c # cs) =
     (if sep \<noteq> [] \<and> take (length sep) (c # cs) = sep
      then cur # split_from sep [] (drop (length sep - 1) cs)
      else split_from sep (cur @ [c]) cs)"

definition py_split :: "string \<Rightarrow> string \<Rightarrow> error + string list" where
  "py_split sep s = (if sep = [] then Inl ValueError else Inr (split_from sep [] s))"

text \<open>\<open>sep.join(xs)\<close>.\<close>

fun py_join :: "string \<Rightarrow> string list \<Rightarrow> string" where
  "py_join sep [] = []"
| "py_join sep [x] = x"
| "py_join sep (x # y # ys) = x @ sep @ py_join sep (y # ys)"

text \<open>\<open>s.lower()\<close> and \<open>s.isdigit()\<close>, on ASCII.\<close>

definition lower_chr :: "char \<Rightarrow> char" where
  "lower_chr c =
     (case map_of (zip ''ABCDEFGHIJKLMNOPQRSTUVWXYZ'' ''abcdefghijklmnopqrstuvwxyz'') c of
        Some l \<Rightarrow> l
      | None \<Rightarrow> c)"

definition lower :: "string \<Rightarrow> string" where
  "lower s = map lower_chr s"

definition isdigit :: "string \<Rightarrow> bool" where
  "isdigit s \<longleftrightarrow> s \<noteq> [] \<and> list_all is_digit s"

section \<open>Indexing Python lists\<close>

text \<open>
  The position a Python index denotes in a sequence of \<open>len\<close> items: \<open>-1\<close> is the
  last item, and an index with no item raises IndexError. \<open>py_get\<close> is \<open>xs[i]\<close>,
  \<open>py_set\<close> is \<open>xs[i] = v\<close>.
\<close>

definition py_index :: "nat \<Rightarrow> int \<Rightarrow> error + nat" where
  "py_index len i =
     (if 0 \<le> i \<and> i < int len then Inr (nat i)
      else if i < 0 \<and> - int len \<le> i then Inr (nat (int len + i))
      else Inl IndexError)"

definition py_get :: "'a list \<Rightarrow> int \<Rightarrow> error + 'a" where
  "py_get xs i = (case py_index (length xs) i of Inl e \<Rightarrow> Inl e | Inr j \<Rightarrow> Inr (xs ! j))"

definition py_set :: "'a list \<Rightarrow> int \<Rightarrow> 'a \<Rightarrow> error + 'a list" where
  "py_set xs i v = (case py_index (length xs) i of Inl e \<Rightarrow> Inl e | Inr j \<Rightarrow> Inr (xs[j := v]))"

section \<open>ConfigSequence.handleKey\<close>

definition validatePos :: "'a ConfigSequence_scheme \<Rightarrow> 'a ConfigSequence_scheme" where
  "validatePos s =
     (let s1 = (if marked_pos s < 0 then s\<lparr>marked_pos := 0\<rparr> else s);
          total_len = (\<Sum>x\<leftarrow>limits s1. int (length (str_int (snd x))))
      in if marked_pos s1 \<ge> total_len then s1\<lparr>marked_pos := total_len - 1\<rparr> else s1)"

text \<open>
  The \<open>ACTIONKEY_LAST\<close> branch sums the widths of \<open>limits[num]\<close> for \<open>num\<close> running
  over the fields of \<open>_value\<close>.
\<close>

fun last_loop :: "int list \<Rightarrow> (int \<times> int) list \<Rightarrow> error + int" where
  "last_loop [] ls = Inr 0"
| "last_loop (v # vs) [] = Inl IndexError"
| "last_loop (v # vs) (lim # ls) =
     (case last_loop vs ls of
        Inl e \<Rightarrow> Inl e
      | Inr max_pos \<Rightarrow> Inr (int (length (str_int (snd lim))) + max_pos))"

text \<open>
  The loop of the digit branch that finds the block under the cursor. Its state is
  \<open>(pos, blocknumber, block_len_total)\<close>; it runs once for each entry of \<open>block_len\<close>
  and reads \<open>block_len[blocknumber]\<close>, not the loop variable.
\<close>

fun locate_loop :: "nat \<Rightarrow> int list \<Rightarrow> int \<Rightarrow> int \<times> int \<times> int list \<Rightarrow> error + int \<times> int \<times> int list" where
  "locate_loop 0 block_len mp st = Inr st"
| "locate_loop (Suc n) block_len mp (pos, blocknumber, block_len_total) =
     (case py_get block_len blocknumber of
        Inl e \<Rightarrow> Inl e
      | Inr w \<Rightarrow>
          (let pos' = pos + w; total' = block_len_total @ [pos']
           in if pos' - 1 \<ge> mp then locate_loop n block_len mp (pos', blocknumber, total')
              else locate_loop n block_len mp (pos', blocknumber + 1, total')))"

text \<open>
  The digit branch proper, for the digit \<open>number\<close>. The exponents
  \<open>number_len - posinblock\<close> and \<open>number_len - posinblock - 1\<close> are written with
  \<open>nat\<close>; Python would leave the integers for a negative exponent.
\<close>

definition enter_digit :: "int \<Rightarrow> 'a ConfigSequence_scheme \<Rightarrow> error + 'a ConfigSequence_scheme" where
  "enter_digit number s =
     (let block_len = map (\<lambda>x. int (length (str_int (snd x)))) (limits s)
      in case locate_loop (length block_len) block_len (marked_pos s) (0, 0, [0]) of
           Inl e \<Rightarrow> Inl e
         | Inr (pos, blocknumber, block_len_total) \<Rightarrow>
      (case py_get (limits s) blocknumber of
           Inl e \<Rightarrow> Inl e
         | Inr lim \<Rightarrow>
      (case py_get block_len_total blocknumber of
           Inl e \<Rightarrow> Inl e
         | Inr start \<Rightarrow>
      (case py_get (el_value s) blocknumber of
           Inl e \<Rightarrow> Inl e
         | Inr old \<Rightarrow>
      (let number_len = int (length (str_int (snd lim)));
           posinblock = marked_pos s - start;
           oldvalue = \<bar>old\<bar>;
           olddec = oldvalue mod 10 ^ nat (number_len - posinblock)
                    - oldvalue mod 10 ^ nat (number_len - posinblock - 1);
           newvalue = oldvalue - olddec + 10 ^ nat (number_len - posinblock - 1) * number
       in case py_set (el_value s) blocknumber newvalue of
            Inl e \<Rightarrow> Inl e
          | Inr vs \<Rightarrow>
              (case validate (s\<lparr>el_value := vs, marked_pos := marked_pos s + 1\<rparr>) of
                 Inl e \<Rightarrow> Inl e
               | Inr s' \<Rightarrow> Inr (changed s')))))))"

text \<open>
  \<open>handleKey(key)\<close>; \<open>code\<close> is what \<open>getPrevAsciiCode()\<close> returns, read only for
  \<open>ACTIONKEY_ASCII\<close>.
\<close>

definition ConfigSequence_handleKey ::
  "int \<Rightarrow> int \<Rightarrow> 'a ConfigSequence_scheme \<Rightarrow> error + 'a ConfigSequence_scheme" where
  "ConfigSequence_handleKey key code s =
     (if key = ACTIONKEY_FIRST then Inr (validatePos (s\<lparr>marked_pos := 0\<rparr>))
      else if key = ACTIONKEY_LEFT then Inr (validatePos (s\<lparr>marked_pos := marked_pos s - 1\<rparr>))
      else if key = ACTIONKEY_RIGHT then Inr (validatePos (s\<lparr>marked_pos := marked_pos s + 1\<rparr>))
      else if key = ACTIONKEY_LAST then
        (case last_loop (el_value s) (limits s) of
           Inl e \<Rightarrow> Inl e
         | Inr max_pos \<Rightarrow> Inr (validatePos (s\<lparr>marked_pos := max_pos - 1\<rparr>)))
      else if in_ACTIONKEY_NUMBERS key \<or> key = ACTIONKEY_ASCII then
        (if key = ACTIONKEY_ASCII then
           (if code < 48 \<or> code > 57 then Inr s else enter_digit (code - 48) s)
         else
           (case getKeyNumber key of Inl e \<Rightarrow> Inl e | Inr number \<Rightarrow> enter_digit number s))
      else Inr s)"

section \<open>ConfigIP and ConfigCECAddress\<close>

text \<open>
  The two classes have the same \<open>handleKey\<close>; they differ in the limits passed to the
  constructor (\<open>ip_limits\<close>, \<open>cec_limits\<close>).
\<close>

record ConfigIP = ConfigSequence +
  block_len :: "int list"
  marked_block :: int
  overwrite :: bool
  auto_jump :: bool

definition ip_limits :: "(int \<times> int) list" where
  "ip_limits = [(0, 255), (0, 255), (0, 255), (0, 255)]"

definition cec_limits :: "(int \<times> int) list" where
  "cec_limits = [(0, 15), (0, 15), (0, 15), (0, 15)]"

definition ConfigIP_init :: "int list \<Rightarrow> bool \<Rightarrow> ConfigIP" where
  "ConfigIP_init d aj =
     \<lparr>el_value = d, dflt = d, lastValue = Some d, saved_value = None,
      save_disabled = False, save_forced = False, enabled = True,
      callNotifiersOnSaveAndCancel = False, changed_calls = 1, changedFinal_calls = 0,
      seperator = ''.'', limits = ip_limits, marked_pos = 0, end_calls = 0,
      block_len = map (\<lambda>x. int (length (str_int (snd x)))) ip_limits,
      marked_block = 0, overwrite = True, auto_jump = aj\<rparr>"

text \<open>
  The four cursor branches of \<open>ConfigIP.handleKey\<close>. The digit branch calls
  \<open>self.handleKey(ACTIONKEY_RIGHT)\<close>, which runs the second of them.
\<close>

definition ConfigIP_move :: "int \<Rightarrow> ConfigIP \<Rightarrow> ConfigIP" where
  "ConfigIP_move key s =
     (if key = ACTIONKEY_LEFT then
        (if marked_block s > 0 then s\<lparr>marked_block := marked_block s - 1\<rparr> else s)\<lparr>overwrite := True\<rparr>
      else if key = ACTIONKEY_RIGHT then
        (if marked_block s < int (length (limits s)) - 1 then s\<lparr>marked_block := marked_block s + 1\<rparr> else s)
          \<lparr>overwrite := True\<rparr>
      else if key = ACTIONKEY_FIRST then s\<lparr>marked_block := 0, overwrite := True\<rparr>
      else if key = ACTIONKEY_LAST then s\<lparr>marked_block := int (length (limits s)) - 1, overwrite := True\<rparr>
      else s)"

text \<open>
  The end of the digit branch, after the field has been written: the jump to the next
  block when the field is full, \<open>validate()\<close> and \<open>changed()\<close>.
\<close>

definition ConfigIP_finish :: "ConfigIP \<Rightarrow> error + ConfigIP" where
  "ConfigIP_finish s =
     (case py_get (el_value s) (marked_block s) of
        Inl e \<Rightarrow> Inl e
      | Inr v \<Rightarrow>
     (case py_get (block_len s) (marked_block s) of
        Inl e \<Rightarrow> Inl e
      | Inr w \<Rightarrow>
     (case validate (if int (length (str_int v)) \<ge> w then ConfigIP_move ACTIONKEY_RIGHT s else s) of
        Inl e \<Rightarrow> Inl e
      | Inr s' \<Rightarrow> Inr (changed s'))))"

function ConfigIP_handleKey :: "int \<Rightarrow> int \<Rightarrow> ConfigIP \<Rightarrow> error + ConfigIP" where
  "ConfigIP_handleKey key code s =
     (if key = ACTIONKEY_LEFT \<or> key = ACTIONKEY_RIGHT \<or> key = ACTIONKEY_FIRST \<or> key = ACTIONKEY_LAST
      then Inr (ConfigIP_move key s)
      else if in_ACTIONKEY_NUMBERS key \<or> key = ACTIONKEY_ASCII then
        (if key = ACTIONKEY_ASCII \<and> (code < 48 \<or> code > 57) then Inr s
         else
           (let number = (if key = ACTIONKEY_ASCII then code - 48 else key - ACTIONKEY_0)
            in case py_get (el_value s) (marked_block s) of
                 Inl e \<Rightarrow> Inl e
               | Inr oldvalue \<Rightarrow>
                   (if overwrite s then
                      (case py_set (el_value s) (marked_block s) number of
                         Inl e \<Rightarrow> Inl e
                       | Inr vs \<Rightarrow> ConfigIP_finish (s\<lparr>el_value := vs, overwrite := False\<rparr>))
                    else
                      (let newvalue = oldvalue * 10 + number
                       in case (if auto_jump s
                                then (case py_get (limits s) (marked_block s) of
                                        Inl e \<Rightarrow> Inl e
                                      | Inr lim \<Rightarrow> Inr (newvalue > snd lim
                                                        \<and> marked_block s < int (length (limits s)) - 1))
                                else Inr False) of
                            Inl e \<Rightarrow> Inl e
                          | Inr jump \<Rightarrow>
                              (if jump then ConfigIP_handleKey key code (ConfigIP_move ACTIONKEY_RIGHT s)
                               else
                                 (case py_set (el_value s) (marked_block s) newvalue of
                                    Inl e \<Rightarrow> Inl e
                                  | Inr vs \<Rightarrow> ConfigIP_finish (s\<lparr>el_value := vs\<rparr>)))))))
      else Inr s)"
  by pat_completeness auto
termination
  by (relation "measure (\<lambda>(key, code, s). if overwrite s then 0 else 1)")
     (auto simp: ConfigIP_move_def ACTIONKEY_RIGHT_def ACTIONKEY_LEFT_def)

declare ConfigIP_handleKey.simps [simp del]

text \<open>A run of key presses; the first exception ends it.\<close>

fun run_keys :: "(int \<Rightarrow> int \<Rightarrow> 's \<Rightarrow> error + 's) \<Rightarrow> (int \<times> int) list \<Rightarrow> 's \<Rightarrow> error + 's" where
  "run_keys handle [] s = Inr s"
| "run_keys handle ((key, code) # ks) s =
     (case handle key code s of Inl e \<Rightarrow> Inl e | Inr s' \<Rightarrow> run_keys handle ks s')"

text \<open>A digit-entry action: a number key, or \<open>ACTIONKEY_ASCII\<close> with the code of a digit.\<close>

definition digit_entry :: "int \<times> int \<Rightarrow> bool" where
  "digit_entry k \<longleftrightarrow>
     in_ACTIONKEY_NUMBERS (fst k) \<or> (fst k = ACTIONKEY_ASCII \<and> 48 \<le> snd k \<and> snd k \<le> 57)"

text \<open>Every field of the value lies within its declared bounds.\<close>

definition fields_in_range :: "'a ConfigSequence_scheme \<Rightarrow> bool" where
  "fields_in_range s \<longleftrightarrow> list_all2 (\<lambda>v lim. fst lim \<le> v \<and> v \<le> snd lim) (el_value s) (limits s)"

text \<open>
  Well-formed editors: one field for each limit, every limit \<open>(a, b)\<close> with \<open>a \<le> b\<close>,
  and the cursor inside the printed width (for \<open>ConfigIP\<close>: the marked block inside
  the list of fields, and one \<open>block_len\<close> entry for each limit, as the constructor
  computes it).
\<close>

definition limits_ok :: "(int \<times> int) list \<Rightarrow> bool" where
  "limits_ok ls \<longleftrightarrow> list_all (\<lambda>lim. fst lim \<le> snd lim) ls"

definition wf_seq :: "'a ConfigSequence_scheme \<Rightarrow> bool" where
  "wf_seq s \<longleftrightarrow> length (el_value s) = length (limits s) \<and> limits_ok (limits s)
     \<and> 0 \<le> marked_pos s \<and> marked_pos s < (\<Sum>x\<leftarrow>limits s. int (length (str_int (snd x))))"

definition wf_ip :: "ConfigIP \<Rightarrow> bool" where
  "wf_ip s \<longleftrightarrow> length (el_value s) = length (limits s) \<and> limits_ok (limits s)
     \<and> length (block_len s) = length (limits s)
     \<and> 0 \<le> marked_block s \<and> marked_block s < int (length (limits s))"

section \<open>ConfigClock.handleKey\<close>

definition clock_limits :: "(int \<times> int) list" where
  "clock_limits = [(0, 23), (0, 59)]"

text \<open>\<open>"%02d" % i\<close>: at least two characters, padded with a zero on the left.\<close>

definition fmt02 :: "int \<Rightarrow> string" where
  "fmt02 i = (if 0 \<le> i \<and> i < 10 then CHR ''0'' # str_int i else str_int i)"

text \<open>
  The start of the digit branch. \<open>wide\<close> is the external setting
  \<open>config.usage.time.wide.value\<close> (twelve-hour display). \<open>clock_hour\<close> gives the hour
  as displayed and \<open>pmadjust\<close>; \<open>clock_rejects\<close> collects the tests that end the
  method with \<open>return\<close> before anything is written.
\<close>

definition clock_hour :: "bool \<Rightarrow> int \<Rightarrow> int \<times> int" where
  "clock_hour wide hour0 =
     (if wide then
        (let pmadjust = (if hour0 > 11 then 12 else 0);
             hour1 = (if hour0 > 11 then hour0 - 12 else hour0)
         in (if hour1 = 0 then 12 else hour1, pmadjust))
      else (hour0, 0))"

definition clock_rejects :: "bool \<Rightarrow> int \<Rightarrow> int \<Rightarrow> int \<Rightarrow> bool" where
  "clock_rejects wide pos hour digit \<longleftrightarrow>
     (if wide then
        (pos = 0 \<and> digit \<ge> 2) \<or> (pos = 1 \<and> hour > 9 \<and> digit \<ge> 3) \<or> (pos = 1 \<and> hour < 10 \<and> digit = 0)
      else
        (pos = 0 \<and> digit \<ge> 3) \<or> (pos = 1 \<and> hour > 19 \<and> digit \<ge> 4))
     \<or> (pos = 2 \<and> digit \<ge> 6)"

text \<open>
  The digit branch for the digit \<open>digit\<close>. The scratch buffer is the byte string
  \<open>HHMM\<close>, in which the byte under the cursor is replaced.
\<close>

definition clock_digit ::
  "bool \<Rightarrow> int \<Rightarrow> 'a ConfigSequence_scheme \<Rightarrow> error + 'a ConfigSequence_scheme" where
  "clock_digit wide digit s =
     (case py_get (el_value s) 0 of
        Inl e \<Rightarrow> Inl e
      | Inr hour0 \<Rightarrow>
     (let hour = fst (clock_hour wide hour0);
          pmadjust = snd (clock_hour wide hour0)
      in if clock_rejects wide (marked_pos s) hour digit then Inr s
         else
           (case py_get (el_value s) 1 of
              Inl e \<Rightarrow> Inl e
            | Inr minute0 \<Rightarrow>
           (case py_set (fmt02 hour @ fmt02 minute0) (marked_pos s) (digit_chr (nat digit)) of
              Inl e \<Rightarrow> Inl e
            | Inr buf \<Rightarrow>
           (case py_int (take 2 buf) of
              Inl e \<Rightarrow> Inl e
            | Inr hour2 \<Rightarrow>
           (case py_int (drop 2 buf) of
              Inl e \<Rightarrow> Inl e
            | Inr minute \<Rightarrow>
           (let hour3 = (if wide then (if hour2 = 12 then 0 else if hour2 > 12 then 10 else hour2) + pmadjust
                         else if hour2 > 23 then 20 else hour2)
            in case py_set (el_value s) 0 hour3 of
                 Inl e \<Rightarrow> Inl e
               | Inr vs0 \<Rightarrow>
                   (case py_set vs0 1 minute of
                      Inl e \<Rightarrow> Inl e
                    | Inr vs \<Rightarrow>
                        (case validate (s\<lparr>el_value := vs, marked_pos := marked_pos s + 1\<rparr>) of
                           Inl e \<Rightarrow> Inl e
                         | Inr s' \<Rightarrow> Inr (changed s'))))))))))"

text \<open>The \<open>ACTIONKEY_DELETE\<close> and \<open>ACTIONKEY_BACKSPACE\<close> branches: to PM and back to AM.\<close>

definition clock_shift :: "bool \<Rightarrow> 'a ConfigSequence_scheme \<Rightarrow> error + 'a ConfigSequence_scheme" where
  "clock_shift to_pm s =
     (case py_get (el_value s) 0 of
        Inl e \<Rightarrow> Inl e
      | Inr hour \<Rightarrow>
          (if (if to_pm then hour < 12 else hour \<ge> 12) then
             (case py_set (el_value s) 0 (if to_pm then hour + 12 else hour - 12) of
                Inl e \<Rightarrow> Inl e
              | Inr vs \<Rightarrow>
                  (case validate (s\<lparr>el_value := vs\<rparr>) of
                     Inl e \<Rightarrow> Inl e
                   | Inr s' \<Rightarrow> Inr (changed s')))
           else Inr s))"

definition ConfigClock_handleKey ::
  "bool \<Rightarrow> int \<Rightarrow> int \<Rightarrow> 'a ConfigSequence_scheme \<Rightarrow> error + 'a ConfigSequence_scheme" where
  "ConfigClock_handleKey wide key code s =
     (if key = ACTIONKEY_DELETE \<and> wide then clock_shift True s
      else if key = ACTIONKEY_BACKSPACE \<and> wide then clock_shift False s
      else if in_ACTIONKEY_NUMBERS key \<or> key = ACTIONKEY_ASCII then
        (if key = ACTIONKEY_ASCII then
           (if code < 48 \<or> code > 57 then Inr s else clock_digit wide (code - 48) s)
         else
           (case getKeyNumber key of Inl e \<Rightarrow> Inl e | Inr digit \<Rightarrow> clock_digit wide digit s))
      else ConfigSequence_handleKey key code s)"

text \<open>A well-formed clock: the two clock limits, and hour and minute within them.\<close>

definition wf_clock :: "'a ConfigSequence_scheme \<Rightarrow> bool" where
  "wf_clock s \<longleftrightarrow> wf_seq s \<and> limits s = clock_limits \<and> fields_in_range s"

text \<open>
  A clock whose digit branch can run: the two clock limits, one field for each, the
  cursor inside the four columns, and no field below zero (the value may exceed its
  limits, as one decoded from a persisted string may).
\<close>

definition clock_ready :: "'a ConfigSequence_scheme \<Rightarrow> bool" where
  "clock_ready s \<longleftrightarrow> wf_seq s \<and> limits s = clock_limits \<and> list_all (\<lambda>v. 0 \<le> v) (el_value s)"

text \<open>The digit a digit-entry action carries, and whether the clock turns it away.\<close>

definition entry_digit :: "int \<times> int \<Rightarrow> int" where
  "entry_digit k = (if fst k = ACTIONKEY_ASCII then snd k - 48 else fst k - ACTIONKEY_0)"

definition clock_turns_away :: "bool \<Rightarrow> int \<times> int \<Rightarrow> 'a ConfigSequence_scheme \<Rightarrow> bool" where
  "clock_turns_away wide k s \<longleftrightarrow>
     clock_rejects wide (marked_pos s) (fst (clock_hour wide (hd (el_value s)))) (entry_digit k)"

section \<open>Python values of a choice list\<close>

text \<open>
  The identifiers of a \<open>ConfigSelection\<close> may be of any type; the ones modelled are
  \<open>None\<close>, booleans, integers and strings. An entry of \<open>choices\<close> is an identifier or
  a tuple \<open>(identifier, description)\<close>.
\<close>

datatype pyval = PNone | PBool bool | PInt int | PStr string

datatype choice = Plain pyval | Tup pyval pyval

fun py_str :: "pyval \<Rightarrow> string" where
  "py_str PNone = ''None''"
| "py_str (PBool b) = (if b then ''True'' else ''False'')"
| "py_str (PInt i) = str_int i"
| "py_str (PStr s) = s"

text \<open>Truth value of an object, as \<open>and\<close>, \<open>or\<close> and \<open>not\<close> take it.\<close>

fun py_truth :: "pyval \<Rightarrow> bool" where
  "py_truth PNone = False"
| "py_truth (PBool b) = b"
| "py_truth (PInt i) = (i \<noteq> 0)"
| "py_truth (PStr s) = (s \<noteq> [])"

text \<open>\<open>x == y\<close>: a boolean equals the integer 0 or 1, a string equals only a string.\<close>

fun py_eq :: "pyval \<Rightarrow> pyval \<Rightarrow> bool" where
  "py_eq (PBool b) (PInt i) = (i = (if b then 1 else 0))"
| "py_eq (PInt i) (PBool b) = (i = (if b then 1 else 0))"
| "py_eq x y = (x = y)"

text \<open>
  \<open>x[0]\<close> for an identifier that is not a tuple: the first character of a string,
  IndexError on the empty string, TypeError on the other types.
\<close>

fun py_first :: "pyval \<Rightarrow> error + pyval" where
  "py_first (PStr []) = Inl IndexError"
| "py_first (PStr (c # cs)) = Inr (PStr [c])"
| "py_first x = Inl TypeError"

section \<open>choicesList\<close>

text \<open>
  The expression \<open>not isinstance(x, tuple) and x or x[0]\<close> of \<open>__list__\<close> and
  \<open>__iter__\<close>: for a tuple it is \<open>x[0]\<close>; otherwise it is \<open>x\<close> when \<open>x\<close> is true,
  and \<open>x[0]\<close> again when \<open>x\<close> is false.
\<close>

definition and_or_first :: "choice \<Rightarrow> error + pyval" where
  "and_or_first x =
     (case x of
        Tup a d \<Rightarrow> Inr a
      | Plain v \<Rightarrow> (if py_truth v then Inr v else py_first v))"

text \<open>A list comprehension whose element expression can raise.\<close>

fun comprehension :: "('a \<Rightarrow> error + 'b) \<Rightarrow> 'a list \<Rightarrow> error + 'b list" where
  "comprehension f [] = Inr []"
| "comprehension f (x # xs) =
     (case f x of
        Inl e \<Rightarrow> Inl e
      | Inr y \<Rightarrow> (case comprehension f xs of Inl e \<Rightarrow> Inl e | Inr ys \<Rightarrow> Inr (y # ys)))"

text \<open>
  A \<open>choicesList\<close> is built from a list (\<open>LIST_TYPE_LIST\<close>) or from a dictionary
  (\<open>LIST_TYPE_DICT\<close>) of identifier and description, kept in insertion order.
\<close>

datatype choicesList = ListChoices "choice list" | DictChoices "(pyval \<times> pyval) list"

text \<open>\<open>ret or [""]\<close>.\<close>

definition or_empty_string :: "pyval list \<Rightarrow> pyval list" where
  "or_empty_string ret = (if ret = [] then [PStr ''''] else ret)"

text \<open>
  \<open>__list__\<close>. \<open>py2\<close> is the flag \<open>six.PY2\<close>. Without it the dictionary branch
  computes the keys and drops them, and the \<open>return\<close> reads the unassigned \<open>ret\<close>.
\<close>

definition choices_list :: "bool \<Rightarrow> choicesList \<Rightarrow> error + pyval list" where
  "choices_list py2 cl =
     (case cl of
        ListChoices cs \<Rightarrow>
          (case comprehension and_or_first cs of Inl e \<Rightarrow> Inl e | Inr ret \<Rightarrow> Inr (or_empty_string ret))
      | DictChoices d \<Rightarrow>
          (if py2 then Inr (or_empty_string (map fst d)) else Inl UnboundLocalError))"

text \<open>\<open>__iter__\<close>, as the list of the items it yields.\<close>

definition choices_iter :: "choicesList \<Rightarrow> error + pyval list" where
  "choices_iter cl =
     (case cl of
        ListChoices cs \<Rightarrow>
          (case comprehension and_or_first cs of Inl e \<Rightarrow> Inl e | Inr ret \<Rightarrow> Inr (or_empty_string ret))
      | DictChoices d \<Rightarrow> Inr (or_empty_string (map fst d)))"

text \<open>\<open>__len__\<close>: \<open>len(self.choices) or 1\<close>.\<close>

definition choices_len :: "choicesList \<Rightarrow> int" where
  "choices_len cl =
     (let n = (case cl of ListChoices cs \<Rightarrow> int (length cs) | DictChoices d \<Rightarrow> int (length d))
      in if n = 0 then 1 else n)"

definition choices_empty :: "choicesList \<Rightarrow> bool" where
  "choices_empty cl = (case cl of ListChoices cs \<Rightarrow> cs = [] | DictChoices d \<Rightarrow> d = [])"

text \<open>\<open>__getitem__\<close>.\<close>

definition choices_getitem :: "choicesList \<Rightarrow> int \<Rightarrow> error + pyval" where
  "choices_getitem cl index =
     (if index = 0 \<and> choices_empty cl then Inr (PStr '''')
      else case cl of
             ListChoices cs \<Rightarrow>
               (case py_get cs index of
                  Inl e \<Rightarrow> Inl e
                | Inr (Tup a d) \<Rightarrow> Inr a
                | Inr (Plain v) \<Rightarrow> Inr v)
           | DictChoices d \<Rightarrow> py_get (map fst d) index)"

text \<open>\<open>xs.index(x)\<close> of a list: the first position whose item equals \<open>x\<close>.\<close>

fun list_index :: "('a \<Rightarrow> bool) \<Rightarrow> 'a list \<Rightarrow> error + int" where
  "list_index p [] = Inl ValueError"
| "list_index p (y # ys) =
     (if p y then Inr 0
      else case list_index p ys of Inl e \<Rightarrow> Inl e | Inr i \<Rightarrow> Inr (i + 1))"

text \<open>
  \<open>index\<close>. Under \<open>PY2\<close> the strings are compared and a ValueError or IndexError,
  also one raised by \<open>__list__\<close>, gives 0; otherwise the values are compared and
  nothing is caught.
\<close>

definition choices_index :: "bool \<Rightarrow> choicesList \<Rightarrow> pyval \<Rightarrow> error + int" where
  "choices_index py2 cl v =
     (if py2 then
        (case (case choices_list py2 cl of
                 Inl e \<Rightarrow> Inl e
               | Inr l \<Rightarrow> list_index (\<lambda>s. s = py_str v) (map py_str l)) of
           Inl e \<Rightarrow> (if e = ValueError \<or> e = IndexError then Inr 0 else Inl e)
         | Inr i \<Rightarrow> Inr i)
      else
        (case choices_list py2 cl of
           Inl e \<Rightarrow> Inl e
         | Inr l \<Rightarrow> list_index (\<lambda>y. py_eq y v) l))"

text \<open>\<open>default()\<close>.\<close>

definition choices_default :: "choicesList \<Rightarrow> pyval" where
  "choices_default cl =
     (case cl of
        ListChoices [] \<Rightarrow> PStr ''''
      | ListChoices (Tup a d # cs) \<Rightarrow> a
      | ListChoices (Plain v # cs) \<Rightarrow> v
      | DictChoices [] \<Rightarrow> PStr ''''
      | DictChoices (kd # d) \<Rightarrow> fst kd)"

section \<open>ConfigSelection\<close>

record ConfigSelection = "pyval ConfigElement" +
  choices :: choicesList
  descr :: "string option"

text \<open>
  The constructor; it writes \<open>_value\<close> directly, so that \<open>changed()\<close> is not called.
\<close>

definition ConfigSelection_init :: "choicesList \<Rightarrow> pyval option \<Rightarrow> ConfigSelection" where
  "ConfigSelection_init cl d =
     (let d' = (case d of None \<Rightarrow> choices_default cl | Some x \<Rightarrow> x)
      in \<lparr>el_value = d', dflt = d', lastValue = Some d', saved_value = None,
          save_disabled = False, save_forced = False, enabled = True,
          callNotifiersOnSaveAndCancel = False, changed_calls = 0, changedFinal_calls = 0,
          choices = cl, descr = None\<rparr>)"

definition ConfigSelection_setValue :: "bool \<Rightarrow> pyval \<Rightarrow> ConfigSelection \<Rightarrow> error + ConfigSelection" where
  "ConfigSelection_setValue py2 v s =
     (case choices_iter (choices s) of
        Inl e \<Rightarrow> Inl e
      | Inr ids \<Rightarrow>
          (if py_str v \<in> set (map py_str ids) then
             (case choices_index py2 (choices s) v of
                Inl e \<Rightarrow> Inl e
              | Inr i \<Rightarrow>
                  (case choices_getitem (choices s) i of
                     Inl e \<Rightarrow> Inl e
                   | Inr c \<Rightarrow> Inr (changed (s\<lparr>el_value := c, descr := None\<rparr>))))
           else Inr (changed (s\<lparr>el_value := dflt s, descr := None\<rparr>))))"

text \<open>\<open>handleKey\<close>; the assignments to \<open>self.value\<close> go through \<open>setValue\<close>.\<close>

definition ConfigSelection_handleKey :: "bool \<Rightarrow> int \<Rightarrow> ConfigSelection \<Rightarrow> error + ConfigSelection" where
  "ConfigSelection_handleKey py2 key s =
     (let nchoices = choices_len (choices s)
      in if nchoices > 1 then
           (case choices_index py2 (choices s) (el_value s) of
              Inl e \<Rightarrow> Inl e
            | Inr i \<Rightarrow>
                (if key = ACTIONKEY_LEFT then
                   (case choices_getitem (choices s) ((i + nchoices - 1) mod nchoices) of
                      Inl e \<Rightarrow> Inl e | Inr c \<Rightarrow> ConfigSelection_setValue py2 c s)
                 else if key = ACTIONKEY_RIGHT then
                   (case choices_getitem (choices s) ((i + 1) mod nchoices) of
                      Inl e \<Rightarrow> Inl e | Inr c \<Rightarrow> ConfigSelection_setValue py2 c s)
                 else if key = ACTIONKEY_FIRST then
                   (case choices_getitem (choices s) 0 of
                      Inl e \<Rightarrow> Inl e | Inr c \<Rightarrow> ConfigSelection_setValue py2 c s)
                 else if key = ACTIONKEY_LAST then
                   (case choices_getitem (choices s) (nchoices - 1) of
                      Inl e \<Rightarrow> Inl e | Inr c \<Rightarrow> ConfigSelection_setValue py2 c s)
                 else Inr s))
         else Inr s)"

text \<open>The number of entries of the choice set, as given to the constructor.\<close>

definition choices_count :: "choicesList \<Rightarrow> nat" where
  "choices_count cl = (case cl of ListChoices cs \<Rightarrow> length cs | DictChoices d \<Rightarrow> length d)"

section \<open>Encoding and decoding of element values\<close>

text \<open>
  The methods of the base class, inherited by \<open>ConfigText\<close>, \<open>ConfigNumber\<close> and
  \<open>ConfigSelection\<close>: \<open>fromstring\<close> returns its argument, \<open>tostring\<close> is \<open>str(value)\<close>.
\<close>

definition ConfigElement_fromstring :: "pyval \<Rightarrow> pyval" where
  "ConfigElement_fromstring v = v"

definition ConfigElement_tostring :: "pyval \<Rightarrow> string" where
  "ConfigElement_tostring v = py_str v"

text \<open>
  \<open>ConfigNumber.getValue\<close>, the getter of \<open>value\<close>: the integer \<open>int(self.text)\<close>;
  when the text is no number it is replaced by \<open>"1"\<close> (for \<open>"true"\<close>) or by the default,
  which the constructor stored as a string. Only the returned value is modelled.
\<close>

definition ConfigNumber_getValue :: "string \<Rightarrow> string \<Rightarrow> error + pyval" where
  "ConfigNumber_getValue text d =
     (case py_int text of
        Inr i \<Rightarrow> Inr (PInt i)
      | Inl e \<Rightarrow>
          (if e = ValueError then
             (case py_int (if lower text = ''true'' then ''1'' else d) of
                Inl e' \<Rightarrow> Inl e'
              | Inr i \<Rightarrow> Inr (PInt i))
           else Inl e))"

text \<open>\<open>ConfigBoolean\<close>.\<close>

definition trueValues :: "string list" where
  "trueValues = [''1'', ''enable'', ''on'', ''true'', ''yes'']"

definition ConfigBoolean_fromstring :: "string \<Rightarrow> bool" where
  "ConfigBoolean_fromstring s \<longleftrightarrow> lower s \<in> set trueValues"

definition ConfigBoolean_tostring :: "bool \<Rightarrow> string" where
  "ConfigBoolean_tostring b =
     (if b \<and> lower (py_str (PBool b)) \<in> set trueValues then ''True'' else ''False'')"

text \<open>
  \<open>ConfigInteger\<close>; \<open>ConfigDateTime\<close> and \<open>ConfigSlider\<close> decode with \<open>int\<close> as well and
  encode with the inherited \<open>str\<close>.
\<close>

definition ConfigInteger_fromstring :: "string \<Rightarrow> error + int" where
  "ConfigInteger_fromstring s = py_int s"

definition ConfigInteger_tostring :: "int \<Rightarrow> string" where
  "ConfigInteger_tostring i = str_int i"

text \<open>
  \<open>ConfigSequence\<close>: \<open>tostring\<close> joins \<open>saveSingle(x) = str(x)\<close> with the separator;
  \<open>fromstring\<close> splits, converts each piece with \<open>int\<close>, and fills the fields that are
  missing from the lower bounds of their limits.
\<close>

definition ConfigSequence_tostring :: "string \<Rightarrow> int list \<Rightarrow> string" where
  "ConfigSequence_tostring sep val = py_join sep (map str_int val)"

definition ConfigSequence_fromstring :: "string \<Rightarrow> (int \<times> int) list \<Rightarrow> string \<Rightarrow> error + int list" where
  "ConfigSequence_fromstring sep lims s =
     (case py_split sep s of
        Inl e \<Rightarrow> Inl e
      | Inr pieces \<Rightarrow>
          (case comprehension py_int pieces of
             Inl e \<Rightarrow> Inl e
           | Inr ret \<Rightarrow> Inr (ret @ map fst (drop (length ret) lims))))"

text \<open>The characters \<open>str\<close> of an integer is made of.\<close>

definition num_chr :: "char \<Rightarrow> bool" where
  "num_chr c \<longleftrightarrow> is_digit c \<or> c = CHR ''-''"

section \<open>ConfigElement.load and ConfigElement.save\<close>

text \<open>
  \<open>load\<close> assigns \<open>value\<close>, and the setter of the base class calls \<open>changed()\<close>. The
  decoder \<open>fromstring\<close> and the encoder \<open>tostring\<close> are the methods of the element's
  class, passed as arguments; a decoder may raise.
\<close>

definition ConfigElement_load ::
  "(saved \<Rightarrow> error + 'v) \<Rightarrow> ('v, 'a) ConfigElement_scheme \<Rightarrow> error + ('v, 'a) ConfigElement_scheme" where
  "ConfigElement_load fromstring s =
     (case saved_value s of
        None \<Rightarrow> Inr (changed (s\<lparr>el_value := dflt s\<rparr>))
      | Some sv \<Rightarrow>
          (case fromstring sv of
             Inl e \<Rightarrow> Inl e
           | Inr v \<Rightarrow> Inr (changed (s\<lparr>el_value := v\<rparr>))))"

definition ConfigElement_save ::
  "('v \<Rightarrow> string) \<Rightarrow> ('v, 'a) ConfigElement_scheme \<Rightarrow> ('v, 'a) ConfigElement_scheme" where
  "ConfigElement_save tostring s =
     (let s1 = (if save_disabled s \<or> (el_value s = dflt s \<and> \<not> save_forced s)
                then s\<lparr>saved_value := None\<rparr>
                else s\<lparr>saved_value := Some (SStr (tostring (el_value s)))\<rparr>)
      in if callNotifiersOnSaveAndCancel s1 then changedFinal s1 else s1)"

text \<open>
  The decoder of \<open>ConfigBoolean\<close> applied to a persisted value: \<open>str\<close> of a dictionary
  begins with a brace, so it is none of the \<open>trueValues\<close>.
\<close>

definition ConfigBoolean_decode :: "saved \<Rightarrow> error + bool" where
  "ConfigBoolean_decode sv =
     (case sv of SStr s \<Rightarrow> Inr (ConfigBoolean_fromstring s) | SDict d \<Rightarrow> Inr False)"

text \<open>
  The decoder of \<open>ConfigSequence\<close> applied to a persisted value; a dictionary has no
  \<open>split\<close>.
\<close>

definition ConfigSequence_decode :: "string \<Rightarrow> (int \<times> int) list \<Rightarrow> saved \<Rightarrow> error + int list" where
  "ConfigSequence_decode sep lims sv =
     (case sv of SStr s \<Rightarrow> ConfigSequence_fromstring sep lims s | SDict d \<Rightarrow> Inl AttributeError)"

definition ConfigBoolean_init :: "bool \<Rightarrow> bool ConfigElement" where
  "ConfigBoolean_init d =
     \<lparr>el_value = d, dflt = d, lastValue = Some d, saved_value = None,
      save_disabled = False, save_forced = False, enabled = True,
      callNotifiersOnSaveAndCancel = False, changed_calls = 1, changedFinal_calls = 0\<rparr>"

section \<open>The containers\<close>

text \<open>
  A node of the configuration tree: an element, a \<open>ConfigSubsection\<close> with
  \<open>content.items\<close> and \<open>content.stored_values\<close>, a \<open>ConfigSubList\<close> with its children
  and \<open>stored_values\<close>, or a \<open>ConfigSubDict\<close> with its entries and \<open>stored_values\<close>.
  Dictionaries are association lists in insertion order. The model copies where the
  source shares a dictionary between a parent's \<open>stored_values\<close> and a child; no
  modelled operation writes through such a shared reference before reading it again.
\<close>

datatype 'v node =
    Element "'v ConfigElement"
  | Subsection "(string \<times> 'v node) list" "(string \<times> saved) list"
  | SubList "'v node list" "(string \<times> saved) list"
  | SubDict "(pyval \<times> 'v node) list" "(string \<times> saved) list"

text \<open>
  \<open>getSavedValue\<close>, the getter of \<open>saved_value\<close>, with the loops of the three
  containers. A subsection starts from its \<open>stored_values\<close> (and leaves the result
  there; only the returned dictionary is modelled), a list and a dictionary start from
  an empty dictionary.
\<close>

fun getSavedValue :: "'v node \<Rightarrow> saved option"
  and section_saved :: "(string \<times> 'v node) list \<Rightarrow> (string \<times> saved) list \<Rightarrow> (string \<times> saved) list"
  and list_saved :: "nat \<Rightarrow> 'v node list \<Rightarrow> (string \<times> saved) list \<Rightarrow> (string \<times> saved) list"
  and dict_saved :: "(pyval \<times> 'v node) list \<Rightarrow> (string \<times> saved) list \<Rightarrow> (string \<times> saved) list"
where
  "getSavedValue (Element e) = saved_value e"
| "getSavedValue (Subsection items stored) = Some (SDict (section_saved items stored))"
| "getSavedValue (SubList xs stored) = Some (SDict (list_saved 0 xs []))"
| "getSavedValue (SubDict items stored) = Some (SDict (dict_saved items []))"
| "section_saved [] res = res"
| "section_saved (kv # rest) res =
     section_saved rest
       (case getSavedValue (snd kv) of
          Some sv \<Rightarrow> AList.update (fst kv) sv res
        | None \<Rightarrow> AList.delete (fst kv) res)"
| "list_saved i [] res = res"
| "list_saved i (val # rest) res =
     list_saved (Suc i) rest
       (case getSavedValue val of
          Some sv \<Rightarrow> AList.update (str_int (int i)) sv res
        | None \<Rightarrow> res)"
| "dict_saved [] res = res"
| "dict_saved (kv # rest) res =
     dict_saved rest
       (case getSavedValue (snd kv) of
          Some sv \<Rightarrow> AList.update (py_str (fst kv)) sv res
        | None \<Rightarrow> res)"

text \<open>An entry of a dictionary is smaller than the dictionary.\<close>

lemma size_map_of: "map_of d k = Some x \<Longrightarrow> size x < size (SDict d)"
proof -
  assume "map_of d k = Some x"
  then have "(k, x) \<in> set d" by (rule map_of_SomeD)
  then have "size_prod (\<lambda>_. 0) size (k, x) \<le> size_list (size_prod (\<lambda>_. 0) size) d"
    by (simp add: size_list_estimation')
  then show ?thesis by simp
qed

text \<open>
  \<open>setSavedValue\<close>, the setter. \<open>dict(values)\<close> copies a dictionary, gives the empty
  dictionary for the empty string and raises ValueError for any other string. A
  subsection and a dictionary hand each attached child the entry of its key; a list
  walks the entries, converts each key with \<open>int\<close> and indexes itself with it.
\<close>

function setSavedValue :: "saved \<Rightarrow> 'v node \<Rightarrow> error + 'v node"
  and section_set :: "(string \<times> saved) list \<Rightarrow> (string \<times> 'v node) list \<Rightarrow> error + (string \<times> 'v node) list"
  and list_set :: "(string \<times> saved) list \<Rightarrow> 'v node list \<Rightarrow> error + 'v node list"
  and dict_set :: "(string \<times> saved) list \<Rightarrow> (pyval \<times> 'v node) list \<Rightarrow> error + (pyval \<times> 'v node) list"
where
  "setSavedValue v (Element e) = Inr (Element (e\<lparr>saved_value := Some v\<rparr>))"
| "setSavedValue (SStr s) (Subsection items stored) =
     (if s = [] then Inr (Subsection items []) else Inl ValueError)"
| "setSavedValue (SStr s) (SubList xs stored) =
     (if s = [] then Inr (SubList xs []) else Inl ValueError)"
| "setSavedValue (SStr s) (SubDict items stored) =
     (if s = [] then Inr (SubDict items []) else Inl ValueError)"
| "setSavedValue (SDict values) (Subsection items stored) =
     (case section_set values items of
        Inl e \<Rightarrow> Inl e
      | Inr items' \<Rightarrow> Inr (Subsection items' values))"
| "setSavedValue (SDict values) (SubList xs stored) =
     (case list_set values xs of
        Inl e \<Rightarrow> Inl e
      | Inr xs' \<Rightarrow> Inr (SubList xs' values))"
| "setSavedValue (SDict values) (SubDict items stored) =
     (case dict_set values items of
        Inl e \<Rightarrow> Inl e
      | Inr items' \<Rightarrow> Inr (SubDict items' values))"
| "section_set values [] = Inr []"
| "section_set values (kv # rest) =
     (case (case map_of values (fst kv) of
              None \<Rightarrow> Inr (snd kv)
            | Some x \<Rightarrow> setSavedValue x (snd kv)) of
        Inl e \<Rightarrow> Inl e
      | Inr val' \<Rightarrow>
          (case section_set values rest of
             Inl e \<Rightarrow> Inl e
           | Inr rest' \<Rightarrow> Inr ((fst kv, val') # rest')))"
| "list_set [] xs = Inr xs"
| "list_set (kx # rest) xs =
     (case py_int (fst kx) of
        Inl e \<Rightarrow> Inl e
      | Inr i \<Rightarrow>
          (if i < int (length xs) then
             (case py_get xs i of
                Inl e \<Rightarrow> Inl e
              | Inr c \<Rightarrow>
                  (case setSavedValue (snd kx) c of
                     Inl e \<Rightarrow> Inl e
                   | Inr c' \<Rightarrow>
                       (case py_set xs i c' of
                          Inl e \<Rightarrow> Inl e
                        | Inr xs' \<Rightarrow> list_set rest xs')))
           else list_set rest xs))"
| "dict_set values [] = Inr []"
| "dict_set values (kv # rest) =
     (case (case map_of values (py_str (fst kv)) of
              None \<Rightarrow> Inr (snd kv)
            | Some x \<Rightarrow> setSavedValue x (snd kv)) of
        Inl e \<Rightarrow> Inl e
      | Inr val' \<Rightarrow>
          (case dict_set values rest of
             Inl e \<Rightarrow> Inl e
           | Inr rest' \<Rightarrow> Inr ((fst kv, val') # rest')))"
  by pat_completeness auto
termination
  apply (relation "inv_image (less_than <*lex*> less_than)
      (\<lambda>x. case x of
          Inl (Inl (v, n)) \<Rightarrow> (2 * size v + 1, 0)
        | Inl (Inr (d, items)) \<Rightarrow> (2 * size (SDict d), length items)
        | Inr (Inl (d, xs)) \<Rightarrow> (2 * size (SDict d), 0)
        | Inr (Inr (d, items)) \<Rightarrow> (2 * size (SDict d), length items))")
  apply (auto dest: size_map_of)
  done

text \<open>
  \<open>load()\<close> of a node: an element loads itself with the \<open>load\<close> of its class, passed
  as \<open>ld\<close>; a container calls \<open>load()\<close> on each child in turn.
\<close>

fun node_load :: "('v ConfigElement \<Rightarrow> error + 'v ConfigElement) \<Rightarrow> 'v node \<Rightarrow> error + 'v node"
  and section_load :: "('v ConfigElement \<Rightarrow> error + 'v ConfigElement) \<Rightarrow> (string \<times> 'v node) list
                       \<Rightarrow> error + (string \<times> 'v node) list"
  and list_load :: "('v ConfigElement \<Rightarrow> error + 'v ConfigElement) \<Rightarrow> 'v node list \<Rightarrow> error + 'v node list"
  and dict_load :: "('v ConfigElement \<Rightarrow> error + 'v ConfigElement) \<Rightarrow> (pyval \<times> 'v node) list
                       \<Rightarrow> error + (pyval \<times> 'v node) list"
where
  "node_load ld (Element e) = (case ld e of Inl err \<Rightarrow> Inl err | Inr e' \<Rightarrow> Inr (Element e'))"
| "node_load ld (Subsection items stored) =
     (case section_load ld items of Inl err \<Rightarrow> Inl err | Inr items' \<Rightarrow> Inr (Subsection items' stored))"
| "node_load ld (SubList xs stored) =
     (case list_load ld xs of Inl err \<Rightarrow> Inl err | Inr xs' \<Rightarrow> Inr (SubList xs' stored))"
| "node_load ld (SubDict items stored) =
     (case dict_load ld items of Inl err \<Rightarrow> Inl err | Inr items' \<Rightarrow> Inr (SubDict items' stored))"
| "section_load ld [] = Inr []"
| "section_load ld (kv # rest) =
     (case node_load ld (snd kv) of
        Inl err \<Rightarrow> Inl err
      | Inr val' \<Rightarrow>
          (case section_load ld rest of
             Inl err \<Rightarrow> Inl err
           | Inr rest' \<Rightarrow> Inr ((fst kv, val') # rest')))"
| "list_load ld [] = Inr []"
| "list_load ld (x # rest) =
     (case node_load ld x of
        Inl err \<Rightarrow> Inl err
      | Inr x' \<Rightarrow>
          (case list_load ld rest of
             Inl err \<Rightarrow> Inl err
           | Inr rest' \<Rightarrow> Inr (x' # rest')))"
| "dict_load ld [] = Inr []"
| "dict_load ld (kv # rest) =
     (case node_load ld (snd kv) of
        Inl err \<Rightarrow> Inl err
      | Inr val' \<Rightarrow>
          (case dict_load ld rest of
             Inl err \<Rightarrow> Inl err
           | Inr rest' \<Rightarrow> Inr ((fst kv, val') # rest')))"

section \<open>Attaching a child\<close>

text \<open>
  What the three attach operations share once the child is in place: when the cache
  holds a value for the key, it is assigned to the child's \<open>saved_value\<close> and the
  child's \<open>load()\<close> is called.
\<close>

definition deploy ::
  "('v ConfigElement \<Rightarrow> error + 'v ConfigElement) \<Rightarrow> saved option \<Rightarrow> 'v node \<Rightarrow> error + 'v node" where
  "deploy ld x child =
     (case x of
        None \<Rightarrow> Inr child
      | Some sv \<Rightarrow>
          (case setSavedValue sv child of
             Inl err \<Rightarrow> Inl err
           | Inr child' \<Rightarrow> node_load ld child'))"

text \<open>
  \<open>ConfigSubsection.__setattr__(name, value)\<close> for a node \<open>value\<close>. The name
  \<open>saved_value\<close> is the setter of the persisted values and takes a dictionary, not a
  node; that call is \<open>setSavedValue\<close>, and a node passed under that name is rejected
  here. Applied to a node that is no subsection the operation does not exist.
\<close>

definition Subsection_setattr ::
  "('v ConfigElement \<Rightarrow> error + 'v ConfigElement) \<Rightarrow> string \<Rightarrow> 'v node \<Rightarrow> 'v node \<Rightarrow> error + 'v node" where
  "Subsection_setattr ld name child self =
     (case self of
        Subsection items stored \<Rightarrow>
          (if name = ''saved_value'' then Inl TypeError
           else case deploy ld (map_of stored name) child of
                  Inl err \<Rightarrow> Inl err
                | Inr child' \<Rightarrow> Inr (Subsection (AList.update name child' items) stored))
      | _ \<Rightarrow> Inl AttributeError)"

text \<open>\<open>ConfigSubList.append(item)\<close>.\<close>

definition SubList_append ::
  "('v ConfigElement \<Rightarrow> error + 'v ConfigElement) \<Rightarrow> 'v node \<Rightarrow> 'v node \<Rightarrow> error + 'v node" where
  "SubList_append ld item self =
     (case self of
        SubList xs stored \<Rightarrow>
          (let i = str_int (int (length xs))
           in case deploy ld (map_of stored i) item of
                Inl err \<Rightarrow> Inl err
              | Inr item' \<Rightarrow> Inr (SubList (xs @ [item']) stored))
      | _ \<Rightarrow> Inl AttributeError)"

text \<open>\<open>ConfigSubDict.__setitem__(key, item)\<close>.\<close>

definition SubDict_setitem ::
  "('v ConfigElement \<Rightarrow> error + 'v ConfigElement) \<Rightarrow> pyval \<Rightarrow> 'v node \<Rightarrow> 'v node \<Rightarrow> error + 'v node" where
  "SubDict_setitem ld key item self =
     (case self of
        SubDict items stored \<Rightarrow>
          (case deploy ld (map_of stored (py_str key)) item of
             Inl err \<Rightarrow> Inl err
           | Inr item' \<Rightarrow> Inr (SubDict (AList.update key item' items) stored))
      | _ \<Rightarrow> Inl AttributeError)"

section \<open>Config.pickle\<close>

text \<open>
  The sort key of \<open>pickle_this\<close>: \<open>str(x[0]) if x[0].isdigit() else x[0].lower()\<close>.
  The keys are strings, so \<open>str\<close> leaves a key of digits as it is. Strings are
  compared character by character, a proper prefix before its extensions.
\<close>

definition pickle_key :: "string \<times> saved \<Rightarrow> string" where
  "pickle_key x = (if isdigit (fst x) then fst x else lower (fst x))"

text \<open>\<open>".".join((prefix, key))\<close>.\<close>

definition dotted :: "string \<Rightarrow> string \<Rightarrow> string" where
  "dotted prefix key = prefix @ ''.'' @ key"

text \<open>The sort does not change the size of a dictionary.\<close>

lemma size_insort_key:
  "size_list f (insort_key g x xs) = Suc (f x + size_list f xs)"
  by (induction xs) simp_all

lemma size_sort_key: "size_list f (sort_key g xs) = size_list f xs"
  by (induction xs) (simp_all add: size_insort_key)

text \<open>
  \<open>pickle_this(prefix, topickle, result)\<close>: \<open>pickle_this\<close> sorts the items (\<open>sorted\<close> is
  stable, as \<open>sort_key\<close> is) and \<open>pickle_items\<close> is the loop over them, appending to
  \<open>result\<close>.
\<close>

function pickle_this :: "string \<Rightarrow> (string \<times> saved) list \<Rightarrow> string list \<Rightarrow> string list"
  and pickle_items :: "string \<Rightarrow> (string \<times> saved) list \<Rightarrow> string list \<Rightarrow> string list"
where
  "pickle_this prefix topickle result = pickle_items prefix (sort_key pickle_key topickle) result"
| "pickle_items prefix [] result = result"
| "pickle_items prefix ((key, SDict d) # rest) result =
     pickle_items prefix rest (pickle_this (dotted prefix key) d result)"
| "pickle_items prefix ((key, SStr s) # rest) result =
     pickle_items prefix rest (result @ [dotted prefix key, ''='', s, [CHR 0x0A]])"
  by pat_completeness auto
termination
  apply (relation "measure (\<lambda>x. case x of
            Inl (prefix, d, result) \<Rightarrow> Suc (size_list (size_prod (\<lambda>_. 0) size) d)
          | Inr (prefix, items, result) \<Rightarrow> size_list (size_prod (\<lambda>_. 0) size) items)")
  apply (auto simp: size_sort_key)
  done

text \<open>\<open>pickle()\<close> of the root, which is a subsection.\<close>

definition pickle :: "'v node \<Rightarrow> string" where
  "pickle root =
     (case getSavedValue root of
        Some (SDict d) \<Rightarrow> concat (pickle_this ''config'' d [])
      | _ \<Rightarrow> [])"

section \<open>Config.unpickle\<close>

text \<open>\<open>line.split("=", 1)\<close>: the line cut at its first equals sign, if it has one.\<close>

fun split_once :: "char \<Rightarrow> string \<Rightarrow> string \<Rightarrow> (string \<times> string) option" where
  "split_once c cur [] = None"
| "split_once c cur (x # xs) = (if x = c then Some (cur, xs) else split_once c (cur @ [x]) xs)"

text \<open>
  The nested \<open>setdefault\<close> walk and the final store of one line: \<open>path\<close> is
  \<open>names[1:-1]\<close>, \<open>leaf\<close> is \<open>names[-1]\<close>. Where the walk meets a string stored by an
  earlier line, \<open>setdefault\<close> on it raises AttributeError and the item assignment raises
  TypeError.
\<close>

fun tree_store :: "string list \<Rightarrow> string \<Rightarrow> string \<Rightarrow> (string \<times> saved) list \<Rightarrow> error + (string \<times> saved) list" where
  "tree_store [] leaf val base = Inr (AList.update leaf (SStr val) base)"
| "tree_store (n # ns) leaf val base =
     (case map_of base n of
        None \<Rightarrow>
          (case tree_store ns leaf val [] of
             Inl e \<Rightarrow> Inl e
           | Inr sub \<Rightarrow> Inr (AList.update n (SDict sub) base))
      | Some (SDict d) \<Rightarrow>
          (case tree_store ns leaf val d of
             Inl e \<Rightarrow> Inl e
           | Inr sub \<Rightarrow> Inr (AList.update n (SDict sub) base))
      | Some (SStr s) \<Rightarrow> Inl (if ns = [] then TypeError else AttributeError))"

text \<open>The body of the loop over the lines, on \<open>configbase\<close>.\<close>

definition unpickle_line :: "string \<Rightarrow> (string \<times> saved) list \<Rightarrow> error + (string \<times> saved) list" where
  "unpickle_line line configbase =
     (if line = [] \<or> hd line = CHR ''#'' then Inr configbase
      else case split_once CHR ''='' [] line of
             None \<Rightarrow> Inr configbase
           | Some (name, val) \<Rightarrow>
               (let names = split_from ''.'' [] name
                in tree_store (butlast (tl names)) (last names) (strip val) configbase))"

fun unpickle_lines :: "string list \<Rightarrow> (string \<times> saved) list \<Rightarrow> error + (string \<times> saved) list" where
  "unpickle_lines [] configbase = Inr configbase"
| "unpickle_lines (line # lines) configbase =
     (case unpickle_line line configbase of
        Inl e \<Rightarrow> Inl e
      | Inr configbase' \<Rightarrow> unpickle_lines lines configbase')"

text \<open>
  \<open>unpickle(lines)\<close> with \<open>base_file\<close> true, the initial load. (With \<open>base_file\<close> false
  each name is also passed to \<open>eval\<close>; that path is not modelled.)
\<close>

definition unpickle :: "string list \<Rightarrow> 'v node \<Rightarrow> error + 'v node" where
  "unpickle lines root =
     (case unpickle_lines lines [] of
        Inl e \<Rightarrow> Inl e
      | Inr tree \<Rightarrow> setSavedValue (SDict tree) root)"

text \<open>The snapshot of a container: the dictionary its \<open>saved_value\<close> getter returns.\<close>

definition snapshot :: "'v node \<Rightarrow> (string \<times> saved) list" where
  "snapshot n = (case getSavedValue n of Some (SDict d) \<Rightarrow> d | _ \<Rightarrow> [])"

text \<open>
  The value a nested dictionary of persisted values holds under a path of keys.
\<close>

fun lookup_saved :: "saved \<Rightarrow> string list \<Rightarrow> saved option" where
  "lookup_saved sv [] = Some sv"
| "lookup_saved (SStr s) (k # ks) = None"
| "lookup_saved (SDict d) (k # ks) =
     (case map_of d k of None \<Rightarrow> None | Some x \<Rightarrow> lookup_saved x ks)"

text \<open>
  A path of keys that leaves the attached tree below subsections only: followed from a
  node through attached subsections (whose items have distinct names, as those of a
  dictionary do), it meets a name that is not attached, or it runs on below an element.
  The test follows no path into a \<open>ConfigSubList\<close> or a \<open>ConfigSubDict\<close> and answers
  \<open>False\<close> there, whatever becomes of the key.
\<close>

fun unattached :: "'v node \<Rightarrow> string list \<Rightarrow> bool" where
  "unattached n [] = False"
| "unattached (Element e) (k # ks) = True"
| "unattached (Subsection items stored) (k # ks) =
     (distinct (map fst items) \<and>
      (case map_of items k of None \<Rightarrow> True | Some c \<Rightarrow> unattached c ks))"
| "unattached (SubList xs stored) (k # ks) = False"
| "unattached (SubDict items stored) (k # ks) = False"

text \<open>The dotted name \<open>pickle_this\<close> builds for a path below \<open>prefix\<close>.\<close>

definition path_name :: "string \<Rightarrow> string list \<Rightarrow> string" where
  "path_name prefix ks = foldl dotted prefix ks"

text \<open>The four strings \<open>pickle_this\<close> appends for one leaf: name, \<open>=\<close>, value, newline.\<close>

definition line_group :: "string \<times> string \<Rightarrow> string list" where
  "line_group p = [fst p, ''='', snd p, [CHR 0x0A]]"

section \<open>Properties of the sequence editors\<close>

lemmas ACTIONKEY_defs = ACTIONKEY_LEFT_def ACTIONKEY_RIGHT_def ACTIONKEY_SELECT_def
  ACTIONKEY_DELETE_def ACTIONKEY_BACKSPACE_def ACTIONKEY_FIRST_def ACTIONKEY_LAST_def
  ACTIONKEY_TOGGLE_def ACTIONKEY_ASCII_def ACTIONKEY_TIMEOUT_def ACTIONKEY_0_def

lemma increment_step:
  assumes "el_value s = [h, m]" "0 \<le> h" "h \<le> 23" "0 \<le> m" "m \<le> 59"
  shows "\<exists>s'. increment s = Inr s' \<and> el_value s' = [((h * 60 + m + 1) mod 1440) div 60, ((h * 60 + m + 1) mod 1440) mod 60]
     \<and> limits s' = limits s \<and> marked_pos s' = marked_pos s \<and> seperator s' = seperator s \<and> end_calls s' = end_calls s \<and> ConfigSequence.more s' = ConfigSequence.more s \<and> changed_calls s' = changed_calls s + 1"
proof (cases "m = 59")
  case True
  show ?thesis
  proof (cases "h < 23")
    case True
    with \<open>m = 59\<close> assms have "(h * 60 + m + 1) mod 1440 = (h + 1) * 60" by (simp add: algebra_simps)
    with True \<open>m = 59\<close> assms show ?thesis by (simp add: increment_def changed_def)
  next
    case False
    with assms have "h = 23" by simp
    with \<open>m = 59\<close> assms show ?thesis by (simp add: increment_def changed_def)
  qed
next
  case False
  with assms have a: "(h * 60 + m + 1) mod 1440 = h * 60 + m + 1" by (simp add: algebra_simps)
  from False assms have "(h * 60 + m + 1) div 60 = h" "(h * 60 + m + 1) mod 60 = m + 1"
    by (auto intro!: int_div_pos_eq[where r = "m + 1"] int_mod_pos_eq[where q = h])
  with a False assms show ?thesis by (simp add: increment_def changed_def)
qed

lemma increment_range:
  assumes "el_value s = [h, m]" "0 \<le> h" "h \<le> 23" "0 \<le> m" "m \<le> 59"
  shows "\<exists>s' t. increment s = Inr s' \<and> el_value s' = [t div 60, t mod 60] \<and> 0 \<le> t \<and> t < 1440 \<and> t = (h * 60 + m + 1) mod 1440
     \<and> limits s' = limits s \<and> marked_pos s' = marked_pos s \<and> seperator s' = seperator s \<and> end_calls s' = end_calls s \<and> ConfigSequence.more s' = ConfigSequence.more s \<and> changed_calls s' = changed_calls s + 1"
  using increment_step[OF assms] by auto

lemma repeat_increment:
  assumes "el_value s = [t div 60, t mod 60]" "0 \<le> t" "t < 1440"
  shows "\<exists>s'. repeat_call n increment s = Inr s' \<and> el_value s' = [((t + int n) mod 1440) div 60, ((t + int n) mod 1440) mod 60]
     \<and> limits s' = limits s \<and> marked_pos s' = marked_pos s \<and> seperator s' = seperator s \<and> end_calls s' = end_calls s \<and> ConfigSequence.more s' = ConfigSequence.more s \<and> changed_calls s' = changed_calls s + n"
  using assms
proof (induction n arbitrary: s t)
  case 0
  then show ?case by simp
next
  case (Suc n)
  from Suc.prems have r: "0 \<le> t div 60" "t div 60 \<le> 23" "0 \<le> t mod 60" "t mod 60 \<le> 59" by auto
  from increment_step[OF Suc.prems(1) r] obtain s1 where
    s1: "increment s = Inr s1" "el_value s1 = [((t div 60 * 60 + t mod 60 + 1) mod 1440) div 60, ((t div 60 * 60 + t mod 60 + 1) mod 1440) mod 60]"
     "limits s1 = limits s" "marked_pos s1 = marked_pos s" "seperator s1 = seperator s" "end_calls s1 = end_calls s" "ConfigSequence.more s1 = ConfigSequence.more s" "changed_calls s1 = changed_calls s + 1"
    by blast
  let ?t1 = "(t + 1) mod 1440"
  have e: "t div 60 * 60 + t mod 60 = t" by simp
  from s1(2) have v: "el_value s1 = [?t1 div 60, ?t1 mod 60]" by (simp only: e)
  have b: "0 \<le> ?t1" "?t1 < 1440" by auto
  from Suc.IH[OF v b] obtain s' where
    s': "repeat_call n increment s1 = Inr s'" "el_value s' = [((?t1 + int n) mod 1440) div 60, ((?t1 + int n) mod 1440) mod 60]"
     "limits s' = limits s1" "marked_pos s' = marked_pos s1" "seperator s' = seperator s1" "end_calls s' = end_calls s1" "ConfigSequence.more s' = ConfigSequence.more s1" "changed_calls s' = changed_calls s1 + n"
    by blast
  have "(?t1 + int n) mod 1440 = (t + int (Suc n)) mod 1440"
    by (simp add: mod_simps algebra_simps)
  with s' s1 show ?case by simp
qed

lemma decrement_increment:
  assumes "el_value s = [h, m]" "0 \<le> h" "h \<le> 23" "0 \<le> m" "m \<le> 59"
  shows "\<exists>s1. increment s = Inr s1 \<and> decrement s1 = Inr (s\<lparr>changed_calls := changed_calls s + 2\<rparr>)"
  using assms by (auto simp: increment_def decrement_def changed_def)

text \<open>
  Claim C8. For a clock whose value is \<open>[h, m]\<close> with \<open>0 \<le> h \<le> 23\<close> and
  \<open>0 \<le> m \<le> 59\<close>, sixty calls of \<open>increment\<close> return normally and leave the value
  \<open>[(h + 1) mod 24, m]\<close>; and \<open>decrement\<close> after \<open>increment\<close> gives the state back,
  every field as it was, apart from the two further calls of \<open>changed()\<close>.
\<close>

theorem ConfigClock_increment_decrement:
  assumes "el_value s = [h, m]" "0 \<le> h" "h \<le> 23" "0 \<le> m" "m \<le> 59"
  shows "(\<exists>s'. repeat_call 60 increment s = Inr s' \<and> el_value s' = [(h + 1) mod 24, m])
       \<and> (\<exists>s1. increment s = Inr s1 \<and> decrement s1 = Inr (s\<lparr>changed_calls := changed_calls s + 2\<rparr>))"
proof -
  let ?t = "h * 60 + m"
  from assms have d: "?t div 60 = h" "?t mod 60 = m"
    by (auto intro!: int_div_pos_eq[where r = m] int_mod_pos_eq[where q = h])
  with assms have v: "el_value s = [?t div 60, ?t mod 60]" by simp
  from assms have b: "0 \<le> ?t" "?t < 1440" by auto
  from repeat_increment[OF v b, of 60] obtain s' where
    s': "repeat_call 60 increment s = Inr s'"
        "el_value s' = [((?t + int 60) mod 1440) div 60, ((?t + int 60) mod 1440) mod 60]"
    by blast
  have "((?t + 60) mod 1440) div 60 = (h + 1) mod 24 \<and> ((?t + 60) mod 1440) mod 60 = m"
  proof (cases "h = 23")
    case True
    with assms have "(?t + 60) mod 1440 = m" by (auto intro!: int_mod_pos_eq[where q = 1])
    with True assms show ?thesis by simp
  next
    case False
    with assms have "(?t + 60) mod 1440 = (h + 1) * 60 + m" by (auto intro!: int_mod_pos_eq[where q = 0])
    moreover from assms have "((h + 1) * 60 + m) div 60 = h + 1" "((h + 1) * 60 + m) mod 60 = m"
      by (auto intro!: int_div_pos_eq[where r = m] int_mod_pos_eq[where q = "h + 1"])
    ultimately show ?thesis using False assms by simp
  qed
  with s' have "el_value s' = [(h + 1) mod 24, m]" by simp
  with s'(1) decrement_increment[OF assms] show ?thesis by blast
qed

theorem ConfigClock_increment_decrement_witness:
  "(\<exists>s'. repeat_call 60 increment (ConfigSequence_init '':'' [(0, 23), (0, 59)] [23, 17]) = Inr s' \<and> el_value s' = [0, 17])"
  using ConfigClock_increment_decrement[of "(ConfigSequence_init '':'' [(0, 23), (0, 59)] [23, 17])" 23 17]
  by (simp add: ConfigSequence_init_def)

lemma digits_of_nonempty: "digits_of n \<noteq> []"
  by (subst digits_of.simps) simp

lemma str_int_width: "1 \<le> int (length (str_int i))"
proof -
  have "str_int i \<noteq> []" by (simp add: str_int_def digits_of_nonempty)
  then show ?thesis by (cases "str_int i") auto
qed

lemma clamp_field_range: "fst lim \<le> snd lim \<Longrightarrow> fst lim \<le> clamp_field lim v \<and> clamp_field lim v \<le> snd lim"
  by (auto simp: clamp_field_def Let_def)

lemma validate_loop_ok:
  "length vs = length ls \<Longrightarrow>
   validate_loop vs ls = Inr (map2 (\<lambda>v lim. clamp_field lim v) vs ls, (\<Sum>x\<leftarrow>ls. int (length (str_int (snd x)))))"
proof (induction vs ls rule: validate_loop.induct)
  case (1 ls) then show ?case by simp
next
  case (2 v vs) then show ?case by simp
next
  case (3 v vs lim ls) then show ?case by simp
qed

lemma clamped_in_range:
  "length vs = length ls \<Longrightarrow> limits_ok ls \<Longrightarrow>
   list_all2 (\<lambda>v lim. fst lim \<le> v \<and> v \<le> snd lim) (map2 (\<lambda>v lim. clamp_field lim v) vs ls) ls"
proof (induction vs ls rule: list_induct2)
  case Nil then show ?case by simp
next
  case (Cons v vs l ls)
  then show ?case using clamp_field_range[of l v] by (simp add: limits_ok_def)
qed

lemma total_width_pos: "ls \<noteq> [] \<Longrightarrow> 1 \<le> (\<Sum>x\<leftarrow>ls. int (length (str_int (snd x))))"
proof (induction ls)
  case Nil then show ?case by simp
next
  case (Cons a ls)
  have "0 \<le> (\<Sum>x\<leftarrow>ls. int (length (str_int (snd x))))" by (rule sum_list_nonneg) auto
  with str_int_width[of "snd a"] show ?case by simp
qed

lemma validate_ok:
  assumes "length (el_value s) = length (limits s)" "limits_ok (limits s)"
  shows "\<exists>s'. validate s = Inr s' \<and> fields_in_range s' \<and> limits s' = limits s
     \<and> length (el_value s') = length (el_value s) \<and> ConfigSequence.more s' = ConfigSequence.more s
     \<and> (limits s \<noteq> [] \<longrightarrow> marked_pos s' < (\<Sum>x\<leftarrow>limits s. int (length (str_int (snd x)))))"
proof -
  let ?vs = "map2 (\<lambda>v lim. clamp_field lim v) (el_value s) (limits s)"
  let ?mp = "(\<Sum>x\<leftarrow>limits s. int (length (str_int (snd x))))"
  have l: "validate_loop (el_value s) (limits s) = Inr (?vs, ?mp)"
    using validate_loop_ok[OF assms(1)] .
  have r: "list_all2 (\<lambda>v lim. fst lim \<le> v \<and> v \<le> snd lim) ?vs (limits s)"
    using clamped_in_range[OF assms] .
  have len: "length ?vs = length (el_value s)" using assms(1) by simp
  show ?thesis
  proof (cases "limits s = []")
    case True
    then show ?thesis unfolding validate_def l using r len by (auto simp: Let_def fields_in_range_def)
  next
    case False
    then have p: "1 \<le> ?mp" by (rule total_width_pos)
    show ?thesis unfolding validate_def l using r len p False by (auto simp: Let_def fields_in_range_def)
  qed
qed

lemma validate_shape:
  assumes "length (el_value s) = length (limits s)"
  shows "\<exists>E P. validate s = Inr (s\<lparr>el_value := map2 (\<lambda>v lim. clamp_field lim v) (el_value s) (limits s),
            end_calls := E, marked_pos := P\<rparr>)
          \<and> 0 \<le> P \<and> (limits s \<noteq> [] \<longrightarrow> P < (\<Sum>x\<leftarrow>limits s. int (length (str_int (snd x)))))"
proof -
  let ?vs = "map2 (\<lambda>v lim. clamp_field lim v) (el_value s) (limits s)"
  let ?mp = "(\<Sum>x\<leftarrow>limits s. int (length (str_int (snd x))))"
  have l: "validate_loop (el_value s) (limits s) = Inr (?vs, ?mp)"
    using validate_loop_ok[OF assms(1)] .
  have p: "limits s \<noteq> [] \<longrightarrow> 1 \<le> ?mp" using total_width_pos by blast
  consider (a) "marked_pos s \<ge> ?mp" "?mp - 1 < 0" | (b) "marked_pos s \<ge> ?mp" "\<not> ?mp - 1 < 0"
    | (c) "\<not> marked_pos s \<ge> ?mp" "marked_pos s < 0" | (d) "\<not> marked_pos s \<ge> ?mp" "\<not> marked_pos s < 0"
    by blast
  then show ?thesis
  proof cases
    case a
    have "validate s = Inr (s\<lparr>el_value := ?vs, end_calls := Suc (end_calls s), marked_pos := 0\<rparr>)"
      unfolding validate_def l using a by (simp add: Let_def)
    moreover have "limits s \<noteq> [] \<longrightarrow> (0::int) < ?mp" using p by auto
    ultimately show ?thesis by blast
  next
    case b
    have "validate s = Inr (s\<lparr>el_value := ?vs, end_calls := Suc (end_calls s), marked_pos := ?mp - 1\<rparr>)"
      unfolding validate_def l using b by (simp add: Let_def)
    moreover have "limits s \<noteq> [] \<longrightarrow> ?mp - 1 < ?mp" by simp
    moreover from b have "0 \<le> ?mp - 1" by simp
    ultimately show ?thesis by blast
  next
    case c
    have "validate s = Inr (s\<lparr>el_value := ?vs, end_calls := end_calls s, marked_pos := 0\<rparr>)"
      unfolding validate_def l using c by (simp add: Let_def)
    moreover have "limits s \<noteq> [] \<longrightarrow> (0::int) < ?mp" using p by auto
    ultimately show ?thesis by blast
  next
    case d
    have "validate s = Inr (s\<lparr>el_value := ?vs, end_calls := end_calls s, marked_pos := marked_pos s\<rparr>)"
      unfolding validate_def l using d by (simp add: Let_def)
    moreover have "limits s \<noteq> [] \<longrightarrow> marked_pos s < ?mp" using d by auto
    moreover from d have "0 \<le> marked_pos s" by simp
    ultimately show ?thesis by blast
  qed
qed

lemma ConfigIP_move_wf: "wf_ip s \<Longrightarrow> wf_ip (ConfigIP_move ACTIONKEY_RIGHT s)"
  by (auto simp: wf_ip_def ConfigIP_move_def ACTIONKEY_RIGHT_def ACTIONKEY_LEFT_def)

lemma ConfigIP_move_overwrite: "overwrite (ConfigIP_move ACTIONKEY_RIGHT s)"
  by (auto simp: ConfigIP_move_def ACTIONKEY_RIGHT_def ACTIONKEY_LEFT_def)

lemma ConfigIP_finish_ok:
  assumes "wf_ip s"
  shows "\<exists>s'. ConfigIP_finish s = Inr s' \<and> wf_ip s' \<and> fields_in_range s'"
proof -
  from assms have g1: "\<exists>v. py_get (el_value s) (marked_block s) = Inr v"
    and g2: "\<exists>w. py_get (block_len s) (marked_block s) = Inr w"
    by (auto simp: wf_ip_def py_get_def py_index_def)
  then obtain v w where vw: "py_get (el_value s) (marked_block s) = Inr v" "py_get (block_len s) (marked_block s) = Inr w"
    by blast
  define t where "t = (if int (length (str_int v)) \<ge> w then ConfigIP_move ACTIONKEY_RIGHT s else s)"
  have wt: "wf_ip t" using assms ConfigIP_move_wf by (simp add: t_def)
  then have len: "length (el_value t) = length (limits t)" and ok: "limits_ok (limits t)" by (auto simp: wf_ip_def)
  from validate_shape[OF len] obtain E P where
    v: "validate t = Inr (t\<lparr>el_value := map2 (\<lambda>v lim. clamp_field lim v) (el_value t) (limits t), end_calls := E, marked_pos := P\<rparr>)"
    by blast
  let ?t' = "t\<lparr>el_value := map2 (\<lambda>v lim. clamp_field lim v) (el_value t) (limits t), end_calls := E, marked_pos := P\<rparr>"
  have f: "ConfigIP_finish s = Inr (changed ?t')"
    unfolding ConfigIP_finish_def vw using v by (simp add: t_def)
  have "wf_ip (changed ?t')" using wt len by (simp add: wf_ip_def changed_def)
  moreover have "fields_in_range (changed ?t')"
    using clamped_in_range[OF len ok] by (simp add: fields_in_range_def changed_def)
  ultimately show ?thesis using f by blast
qed

lemma ConfigIP_digit_overwrite:
  assumes "wf_ip s" "digit_entry (key, code)" "overwrite s"
  shows "\<exists>s'. ConfigIP_handleKey key code s = Inr s' \<and> wf_ip s' \<and> fields_in_range s'"
proof -
  from assms(2) have k: "\<not> (key = ACTIONKEY_LEFT \<or> key = ACTIONKEY_RIGHT \<or> key = ACTIONKEY_FIRST \<or> key = ACTIONKEY_LAST)"
    "in_ACTIONKEY_NUMBERS key \<or> key = ACTIONKEY_ASCII" "\<not> (key = ACTIONKEY_ASCII \<and> (code < 48 \<or> code > 57))"
    by (auto simp: digit_entry_def in_ACTIONKEY_NUMBERS_def ACTIONKEY_defs)
  define number where "number = (if key = ACTIONKEY_ASCII then code - 48 else key - ACTIONKEY_0)"
  from assms(1) obtain v where g: "py_get (el_value s) (marked_block s) = Inr v"
    by (auto simp: wf_ip_def py_get_def py_index_def)
  from assms(1) have st: "py_set (el_value s) (marked_block s) number = Inr ((el_value s)[nat (marked_block s) := number])"
    by (auto simp: wf_ip_def py_set_def py_index_def)
  let ?t = "s\<lparr>el_value := (el_value s)[nat (marked_block s) := number], overwrite := False\<rparr>"
  have e: "ConfigIP_handleKey key code s = ConfigIP_finish ?t"
    by (subst ConfigIP_handleKey.simps) (use k g st assms(3) in \<open>auto simp add: Let_def number_def\<close>)
  have "wf_ip ?t" using assms(1) by (simp add: wf_ip_def)
  from ConfigIP_finish_ok[OF this] e show ?thesis by simp
qed

lemma ConfigIP_digit_ok:
  assumes "wf_ip s" "digit_entry (key, code)"
  shows "\<exists>s'. ConfigIP_handleKey key code s = Inr s' \<and> wf_ip s' \<and> fields_in_range s'"
proof (cases "overwrite s")
  case True
  with assms show ?thesis by (rule ConfigIP_digit_overwrite)
next
  case False
  from assms(2) have k: "\<not> (key = ACTIONKEY_LEFT \<or> key = ACTIONKEY_RIGHT \<or> key = ACTIONKEY_FIRST \<or> key = ACTIONKEY_LAST)"
    "in_ACTIONKEY_NUMBERS key \<or> key = ACTIONKEY_ASCII" "\<not> (key = ACTIONKEY_ASCII \<and> (code < 48 \<or> code > 57))"
    by (auto simp: digit_entry_def in_ACTIONKEY_NUMBERS_def ACTIONKEY_defs)
  define number where "number = (if key = ACTIONKEY_ASCII then code - 48 else key - ACTIONKEY_0)"
  from assms(1) obtain v where g: "py_get (el_value s) (marked_block s) = Inr v"
    by (auto simp: wf_ip_def py_get_def py_index_def)
  from assms(1) obtain lim where gl: "py_get (limits s) (marked_block s) = Inr lim"
    by (auto simp: wf_ip_def py_get_def py_index_def)
  have st: "py_set (el_value s) (marked_block s) x = Inr ((el_value s)[nat (marked_block s) := x])" for x
    using assms(1) by (auto simp: wf_ip_def py_set_def py_index_def)
  define jump where "jump \<longleftrightarrow> auto_jump s \<and> v * 10 + number > snd lim \<and> marked_block s < int (length (limits s)) - 1"
  let ?t = "s\<lparr>el_value := (el_value s)[nat (marked_block s) := v * 10 + number]\<rparr>"
  have e: "ConfigIP_handleKey key code s =
      (if jump then ConfigIP_handleKey key code (ConfigIP_move ACTIONKEY_RIGHT s) else ConfigIP_finish ?t)"
    by (subst ConfigIP_handleKey.simps) (use k g gl st False in \<open>auto simp add: Let_def number_def jump_def\<close>)
  show ?thesis
  proof (cases jump)
    case True
    have "wf_ip (ConfigIP_move ACTIONKEY_RIGHT s)" using assms(1) by (rule ConfigIP_move_wf)
    from ConfigIP_digit_overwrite[OF this assms(2) ConfigIP_move_overwrite] e True show ?thesis by simp
  next
    case False
    have "wf_ip ?t" using assms(1) by (simp add: wf_ip_def)
    from ConfigIP_finish_ok[OF this] e False show ?thesis by simp
  qed
qed

lemma ConfigIP_run_ok:
  assumes "wf_ip s" "list_all digit_entry ks"
  shows "\<exists>s'. run_keys ConfigIP_handleKey ks s = Inr s' \<and> wf_ip s' \<and> (ks \<noteq> [] \<or> fields_in_range s \<longrightarrow> fields_in_range s')"
  using assms
proof (induction ks arbitrary: s)
  case Nil
  then show ?case by simp
next
  case (Cons k ks)
  obtain key code where kc: "k = (key, code)" by (cases k)
  with Cons.prems have d: "digit_entry (key, code)" "list_all digit_entry ks" by auto
  from ConfigIP_digit_ok[OF Cons.prems(1) d(1)] obtain s1 where
    s1: "ConfigIP_handleKey key code s = Inr s1" "wf_ip s1" "fields_in_range s1" by blast
  from Cons.IH[OF s1(2) d(2)] s1 kc show ?case by auto
qed

text \<open>
  Claim C7. A \<open>ConfigIP\<close> built with \<open>auto_jump\<close> on the value \<open>[0, 0, 0, 0]\<close> (marked
  block 0, overwrite on) and fed the keys 2, 5, 6 ends with the first field 25, the marked
  block on the second field, and the second field 6.
\<close>

theorem ConfigIP_digits_2_5_6:
  "map_sum id (\<lambda>s. (el_value s, marked_block s))
     (run_keys ConfigIP_handleKey [(ACTIONKEY_0 + 2, 0), (ACTIONKEY_0 + 5, 0), (ACTIONKEY_0 + 6, 0)]
        (ConfigIP_init [0, 0, 0, 0] True))
   = Inr ([25, 6, 0, 0], 1)"
  by code_simp

lemma locate_loop_ok:
  assumes "i + n = length bl" "0 \<le> bn" "bn \<le> int i" "length blt = Suc i"
    "bn = int i \<longrightarrow> pos = sum_list (take i bl)" "n = 0 \<longrightarrow> bn < int i"
    "mp < sum_list bl"
  shows "\<exists>pos' bn' blt'. locate_loop n bl mp (pos, bn, blt) = Inr (pos', bn', blt')
           \<and> 0 \<le> bn' \<and> bn' < int (length bl) \<and> length blt' = Suc (length bl)"
  using assms
proof (induction n arbitrary: i pos bn blt)
  case 0
  then show ?case by simp
next
  case (Suc n)
  from Suc.prems have il: "i < length bl" by simp
  with Suc.prems have g: "py_get bl bn = Inr (bl ! nat bn)"
    by (auto simp: py_get_def py_index_def)
  let ?pos' = "pos + bl ! nat bn"
  let ?blt' = "blt @ [?pos']"
  have step: "locate_loop (Suc n) bl mp (pos, bn, blt) =
      (if ?pos' - 1 \<ge> mp then locate_loop n bl mp (?pos', bn, ?blt')
       else locate_loop n bl mp (?pos', bn + 1, ?blt'))"
    by (simp add: g Let_def)
  have tk: "sum_list (take (Suc i) bl) = sum_list (take i bl) + bl ! i"
    using il by (simp add: take_Suc_conv_app_nth)
  show ?case
  proof (cases "?pos' - 1 \<ge> mp")
    case True
    have "\<exists>pos' bn' blt'. locate_loop n bl mp (?pos', bn, ?blt') = Inr (pos', bn', blt')
           \<and> 0 \<le> bn' \<and> bn' < int (length bl) \<and> length blt' = Suc (length bl)"
      by (rule Suc.IH[of "Suc i"]) (use Suc.prems in auto)
    with step True show ?thesis by simp
  next
    case False
    have a: "n = 0 \<longrightarrow> bn + 1 < int (Suc i)"
    proof
      assume n0: "n = 0"
      show "bn + 1 < int (Suc i)"
      proof (rule ccontr)
        assume "\<not> bn + 1 < int (Suc i)"
        with Suc.prems have b: "bn = int i" by simp
        with Suc.prems have "pos = sum_list (take i bl)" by simp
        with b tk have "?pos' = sum_list (take (Suc i) bl)" by simp
        moreover from n0 Suc.prems have "Suc i = length bl" by simp
        ultimately have "?pos' = sum_list bl" by simp
        with False Suc.prems show False by simp
      qed
    qed
    have b: "bn + 1 = int (Suc i) \<longrightarrow> ?pos' = sum_list (take (Suc i) bl)"
    proof
      assume "bn + 1 = int (Suc i)"
      then have b: "bn = int i" by simp
      with Suc.prems have "pos = sum_list (take i bl)" by simp
      with b tk show "?pos' = sum_list (take (Suc i) bl)" by simp
    qed
    have "\<exists>pos' bn' blt'. locate_loop n bl mp (?pos', bn + 1, ?blt') = Inr (pos', bn', blt')
           \<and> 0 \<le> bn' \<and> bn' < int (length bl) \<and> length blt' = Suc (length bl)"
      by (rule Suc.IH[of "Suc i"]) (use Suc.prems a b in auto)
    with step False show ?thesis by simp
  qed
qed

lemma enter_digit_ok:
  assumes "wf_seq s"
  shows "\<exists>s'. enter_digit number s = Inr s' \<and> wf_seq s' \<and> fields_in_range s'"
proof -
  let ?bl = "map (\<lambda>x. int (length (str_int (snd x)))) (limits s)"
  from assms have len: "length (el_value s) = length (limits s)" and ok: "limits_ok (limits s)"
    and mp: "marked_pos s < sum_list ?bl" "0 \<le> marked_pos s" by (auto simp: wf_seq_def)
  have ne: "limits s \<noteq> []" using mp by auto
  have "\<exists>pos' bn' blt'. locate_loop (length ?bl) ?bl (marked_pos s) (0, 0, [0]) = Inr (pos', bn', blt')
           \<and> 0 \<le> bn' \<and> bn' < int (length ?bl) \<and> length blt' = Suc (length ?bl)"
    by (rule locate_loop_ok[of 0]) (use ne mp in auto)
  then obtain pos bn blt where loc: "locate_loop (length ?bl) ?bl (marked_pos s) (0, 0, [0]) = Inr (pos, bn, blt)"
    and bn: "0 \<le> bn" "bn < int (length (limits s))" and blt: "length blt = Suc (length (limits s))"
    by auto
  from bn have g1: "py_get (limits s) bn = Inr (limits s ! nat bn)" by (simp add: py_get_def py_index_def)
  from bn blt have g2: "py_get blt bn = Inr (blt ! nat bn)" by (simp add: py_get_def py_index_def)
  from bn len have g3: "py_get (el_value s) bn = Inr (el_value s ! nat bn)" by (simp add: py_get_def py_index_def)
  from bn len have g4: "py_set (el_value s) bn x = Inr ((el_value s)[nat bn := x])" for x
    by (simp add: py_set_def py_index_def)
  define newvalue where "newvalue =
      (let lim = limits s ! nat bn; number_len = int (length (str_int (snd lim)));
           posinblock = marked_pos s - blt ! nat bn;
           oldvalue = \<bar>el_value s ! nat bn\<bar>;
           olddec = oldvalue mod 10 ^ nat (number_len - posinblock)
                    - oldvalue mod 10 ^ nat (number_len - posinblock - 1)
       in oldvalue - olddec + 10 ^ nat (number_len - posinblock - 1) * number)"
  let ?t = "s\<lparr>el_value := (el_value s)[nat bn := newvalue], marked_pos := marked_pos s + 1\<rparr>"
  have lt: "length (el_value ?t) = length (limits ?t)" using len by simp
  from validate_shape[OF lt] obtain E P where
    v: "validate ?t = Inr (?t\<lparr>el_value := map2 (\<lambda>v lim. clamp_field lim v) (el_value ?t) (limits ?t), end_calls := E, marked_pos := P\<rparr>)"
    and P: "0 \<le> P" "P < sum_list ?bl"
    using ne by auto
  let ?t' = "?t\<lparr>el_value := map2 (\<lambda>v lim. clamp_field lim v) (el_value ?t) (limits ?t), end_calls := E, marked_pos := P\<rparr>"
  have e: "enter_digit number s = Inr (changed ?t')"
    unfolding enter_digit_def using loc g1 g2 g3 g4 v by (simp add: Let_def newvalue_def)
  have ok': "limits_ok (limits ?t)" using ok by simp
  have "wf_seq (changed ?t')" using len ok P by (simp add: wf_seq_def changed_def)
  moreover have "fields_in_range (changed ?t')"
    using clamped_in_range[OF lt ok'] by (simp add: fields_in_range_def changed_def)
  ultimately show ?thesis using e by blast
qed

lemma ConfigSequence_digit_ok:
  assumes "wf_seq s" "digit_entry (key, code)"
  shows "\<exists>s'. ConfigSequence_handleKey key code s = Inr s' \<and> wf_seq s' \<and> fields_in_range s'"
proof (cases "key = ACTIONKEY_ASCII")
  case True
  with assms(2) have "ConfigSequence_handleKey key code s = enter_digit (code - 48) s"
    by (auto simp: ConfigSequence_handleKey_def digit_entry_def in_ACTIONKEY_NUMBERS_def ACTIONKEY_defs)
  with enter_digit_ok[OF assms(1)] show ?thesis by simp
next
  case False
  with assms(2) have "ConfigSequence_handleKey key code s = enter_digit (key - ACTIONKEY_0) s"
    by (auto simp: ConfigSequence_handleKey_def digit_entry_def in_ACTIONKEY_NUMBERS_def getKeyNumber_def ACTIONKEY_defs)
  with enter_digit_ok[OF assms(1)] show ?thesis by simp
qed

lemma ConfigSequence_run_ok:
  assumes "wf_seq s" "list_all digit_entry ks"
  shows "\<exists>s'. run_keys ConfigSequence_handleKey ks s = Inr s' \<and> wf_seq s' \<and> (ks \<noteq> [] \<or> fields_in_range s \<longrightarrow> fields_in_range s')"
  using assms
proof (induction ks arbitrary: s)
  case Nil
  then show ?case by simp
next
  case (Cons k ks)
  obtain key code where kc: "k = (key, code)" by (cases k)
  with Cons.prems have d: "digit_entry (key, code)" "list_all digit_entry ks" by auto
  from ConfigSequence_digit_ok[OF Cons.prems(1) d(1)] obtain s1 where
    s1: "ConfigSequence_handleKey key code s = Inr s1" "wf_seq s1" "fields_in_range s1" by blast
  from Cons.IH[OF s1(2) d(2)] s1 kc show ?case by auto
qed

section \<open>Properties of ConfigSelection\<close>

text \<open>
  Claim C10. For a \<open>ConfigSelection\<close> whose choice set has fewer than two entries,
  \<open>handleKey\<close> returns normally for every key and both Python versions, and leaves the
  whole object as it was: value, choices, and the count of \<open>changed()\<close> calls (no notifier
  fires); the index is computed from the value and the choices, so it is unchanged too.
\<close>

theorem ConfigSelection_handleKey_noop:
  "choices_count (choices s) < 2 \<Longrightarrow> ConfigSelection_handleKey py2 key s = Inr s"
  by (auto simp: ConfigSelection_handleKey_def choices_len_def choices_count_def Let_def
           split: choicesList.splits)

theorem ConfigSelection_handleKey_noop_witness:
  "choices_count (choices (ConfigSelection_init (ListChoices [Tup (PStr ''a'') (PStr ''A'')]) None)) < 2
   \<and> ConfigSelection_handleKey True ACTIONKEY_RIGHT
        (ConfigSelection_init (ListChoices [Tup (PStr ''a'') (PStr ''A'')]) None)
      = Inr (ConfigSelection_init (ListChoices [Tup (PStr ''a'') (PStr ''A'')]) None)"
  using ConfigSelection_handleKey_noop
          [of "ConfigSelection_init (ListChoices [Tup (PStr ''a'') (PStr ''A'')]) None" True ACTIONKEY_RIGHT]
  by (simp add: ConfigSelection_init_def choices_count_def Let_def)

text \<open>
  Claim C5 says that \<open>setValue(v)\<close> adopts the choice whose string form is \<open>str(v)\<close>, or
  else the default, and never raises. The code raises in two situations. With the
  choices \<open>[0, 1]\<close>, \<open>setValue(1)\<close> raises TypeError under either Python version: the
  \<open>and\<close>/\<open>or\<close> expression of \<open>__iter__\<close> indexes the false identifier 0. With the
  choices \<open>[1, 2]\<close> and without \<open>PY2\<close>, \<open>setValue("1")\<close> finds \<open>"1"\<close> among the string
  forms and then raises ValueError in \<open>index\<close>, which compares the values; under \<open>PY2\<close>
  the same call adopts the choice 1.
\<close>

theorem ConfigSelection_setValue_raises:
  "ConfigSelection_setValue py2 (PInt 1)
     (ConfigSelection_init (ListChoices [Plain (PInt 0), Plain (PInt 1)]) None) = Inl TypeError
   \<and> ConfigSelection_setValue False (PStr ''1'')
     (ConfigSelection_init (ListChoices [Plain (PInt 1), Plain (PInt 2)]) None) = Inl ValueError
   \<and> map_sum id el_value (ConfigSelection_setValue True (PStr ''1'')
     (ConfigSelection_init (ListChoices [Plain (PInt 1), Plain (PInt 2)]) None)) = Inr (PInt 1)"
  by (simp add: ConfigSelection_setValue_def ConfigSelection_init_def choices_iter_def
        choices_index_def choices_list_def choices_getitem_def choices_empty_def choices_default_def
        and_or_first_def or_empty_string_def py_get_def py_index_def changed_def
        str_int_def digits_of.simps digit_chr_def Let_def)

section \<open>Properties of the value codecs\<close>

lemma digit_chr_is_digit: "n < 10 \<Longrightarrow> is_digit (digit_chr n)"
proof -
  assume "n < 10"
  then have "n \<in> {0,1,2,3,4,5,6,7,8,9}" by auto
  then show ?thesis by (auto simp: is_digit_def digit_chr_def)
qed

lemma digit_val_digit_chr: "n < 10 \<Longrightarrow> digit_val (digit_chr n) = n"
proof -
  assume "n < 10"
  then have "n \<in> {0,1,2,3,4,5,6,7,8,9}" by auto
  then show ?thesis by (auto simp: digit_val_def digit_chr_def)
qed

lemma digits_of_all: "list_all is_digit (digits_of n)"
proof (induction n rule: digits_of.induct)
  case (1 n)
  show ?case
  proof (cases "n < 10")
    case True
    then show ?thesis by (subst digits_of.simps) (simp add: digit_chr_is_digit)
  next
    case False
    with 1 show ?thesis by (subst digits_of.simps) (simp add: digit_chr_is_digit)
  qed
qed

lemma nat_of_digits_snoc: "nat_of_digits (s @ [c]) = 10 * nat_of_digits s + digit_val c"
  by (simp add: nat_of_digits_def)

lemma nat_of_digits_of: "nat_of_digits (digits_of n) = n"
proof (induction n rule: digits_of.induct)
  case (1 n)
  show ?case
  proof (cases "n < 10")
    case True
    then show ?thesis by (subst digits_of.simps) (simp add: nat_of_digits_def digit_val_digit_chr)
  next
    case False
    with 1 have "nat_of_digits (digits_of (n div 10)) = n div 10" by simp
    with False show ?thesis
      by (subst digits_of.simps) (simp add: nat_of_digits_snoc digit_val_digit_chr)
  qed
qed

lemma is_digit_not_space: "is_digit c \<Longrightarrow> \<not> is_space c"
  by (auto simp: is_digit_def is_space_def)

lemma strip_digits: "s \<noteq> [] \<Longrightarrow> \<not> is_space (hd s) \<Longrightarrow> \<not> is_space (last s) \<Longrightarrow> strip s = s"
proof -
  assume a: "s \<noteq> []" "\<not> is_space (hd s)" "\<not> is_space (last s)"
  then have "dropWhile is_space s = s" by (cases s) auto
  moreover from a have "dropWhile is_space (rev s) = rev s" by (cases "rev s") (auto simp: last_rev[symmetric] hd_rev)
  ultimately show ?thesis by (simp add: strip_def)
qed

lemma digits_hd_last: "is_digit (hd (digits_of n))" "is_digit (last (digits_of n))"
proof -
  have a: "list_all is_digit (digits_of n)" by (rule digits_of_all)
  have b: "digits_of n \<noteq> []" by (rule digits_of_nonempty)
  from a b show "is_digit (hd (digits_of n))" by (cases "digits_of n") auto
  from a b have "\<forall>c \<in> set (digits_of n). is_digit c" by (simp add: list_all_iff)
  with b show "is_digit (last (digits_of n))" by simp
qed

lemma py_int_str_int: "py_int (str_int i) = Inr i"
proof (cases "i < 0")
  case True
  let ?d = "digits_of (nat (- i))"
  have ne: "?d \<noteq> []" by (rule digits_of_nonempty)
  have sp: "\<not> is_space (last ?d)" using digits_hd_last(2) is_digit_not_space by blast
  have "strip (CHR ''-'' # ?d) = CHR ''-'' # ?d"
    by (rule strip_digits) (use ne sp in \<open>auto simp: is_space_def\<close>)
  with True ne show ?thesis
    by (simp add: py_int_def str_int_def digits_of_all nat_of_digits_of Let_def)
next
  case False
  let ?d = "digits_of (nat i)"
  have ne: "?d \<noteq> []" by (rule digits_of_nonempty)
  have all: "list_all is_digit ?d" by (rule digits_of_all)
  have h: "is_digit (hd ?d)" by (rule digits_hd_last)
  then have nm: "hd ?d \<noteq> CHR ''-''" "hd ?d \<noteq> CHR ''+''" by (auto simp: is_digit_def)
  have st: "strip ?d = ?d"
    by (rule strip_digits) (use ne digits_hd_last is_digit_not_space in blast)+
  obtain c r where cr: "?d = c # r" using ne by (cases ?d) auto
  with nm have c: "c \<noteq> CHR ''-''" "c \<noteq> CHR ''+''" by auto
  have "py_int ?d = Inr (int (nat_of_digits ?d))"
    unfolding py_int_def st Let_def using all c cr by simp
  with False show ?thesis by (simp add: str_int_def nat_of_digits_of)
qed

lemma str_int_num_chr: "list_all num_chr (str_int i)"
proof -
  have "list_all num_chr (digits_of n)" for n
    using digits_of_all[of n] by (auto simp: list_all_iff num_chr_def)
  then show ?thesis by (simp add: str_int_def num_chr_def)
qed

lemma split_from_num:
  assumes "sep \<noteq> []" "\<not> num_chr (hd sep)" "list_all num_chr d"
  shows "split_from sep cur (d @ r) = split_from sep (cur @ d) r"
  using assms(3)
proof (induction d arbitrary: cur)
  case Nil
  then show ?case by simp
next
  case (Cons c d)
  obtain a sep' where sep: "sep = a # sep'" using assms(1) by (cases sep) auto
  from Cons.prems assms(2) sep have "a \<noteq> c" by auto
  then have "take (length sep) (c # d @ r) \<noteq> sep" using sep by auto
  with Cons show ?case by simp
qed

lemma split_from_sep:
  assumes "sep \<noteq> []"
  shows "split_from sep cur (sep @ r) = cur # split_from sep [] r"
proof -
  obtain a sep' where sep: "sep = a # sep'" using assms by (cases sep) auto
  then show ?thesis by simp
qed

lemma split_join:
  assumes "sep \<noteq> []" "\<not> num_chr (hd sep)" "vs \<noteq> []"
  shows "split_from sep [] (py_join sep (map str_int vs)) = map str_int vs"
  using assms(3)
proof (induction vs rule: list_nonempty_induct)
  case (single x)
  have "split_from sep [] (str_int x @ []) = split_from sep ([] @ str_int x) []"
    by (rule split_from_num[OF assms(1,2) str_int_num_chr])
  then show ?case by simp
next
  case (cons x xs)
  then obtain y ys where xs: "xs = y # ys" by (cases xs) auto
  have "split_from sep [] (str_int x @ (sep @ py_join sep (map str_int xs)))
      = split_from sep ([] @ str_int x) (sep @ py_join sep (map str_int xs))"
    by (rule split_from_num[OF assms(1,2) str_int_num_chr])
  also have "\<dots> = str_int x # split_from sep [] (py_join sep (map str_int xs))"
    using split_from_sep[OF assms(1)] by simp
  finally show ?case using cons.IH xs by simp
qed

lemma comprehension_py_int: "comprehension py_int (map str_int vs) = Inr vs"
  by (induction vs) (simp_all add: py_int_str_int)

lemma ConfigSequence_roundtrip:
  assumes "sep \<noteq> []" "\<not> num_chr (hd sep)" "vs \<noteq> []" "length lims \<le> length vs"
  shows "ConfigSequence_fromstring sep lims (ConfigSequence_tostring sep vs) = Inr vs"
  using assms split_join[OF assms(1-3)]
  by (simp add: ConfigSequence_fromstring_def ConfigSequence_tostring_def py_split_def comprehension_py_int)

lemma ConfigBoolean_roundtrip: "ConfigBoolean_fromstring (ConfigBoolean_tostring b) = b"
  by (cases b) (simp_all add: ConfigBoolean_fromstring_def ConfigBoolean_tostring_def trueValues_def
       lower_def lower_chr_def)

text \<open>
  Claim C3 fails for the variants that keep the base-class codec with a value that is not
  a string: a \<open>ConfigNumber\<close> holding the text \<open>"5"\<close> has the value 5, \<open>tostring\<close> gives
  \<open>"5"\<close>, and \<open>fromstring\<close> returns that string, which is not equal to 5.
\<close>

theorem ConfigNumber_roundtrip_counterexample:
  "ConfigNumber_getValue ''5'' ''0'' = Inr (PInt 5)
   \<and> \<not> py_eq (ConfigElement_fromstring (PStr (ConfigElement_tostring (PInt 5)))) (PInt 5)"
proof -
  have "py_int ''5'' = Inr 5"
    by (simp add: py_int_def strip_def is_space_def is_digit_def nat_of_digits_def digit_val_def Let_def)
  then show ?thesis
    by (simp add: ConfigNumber_getValue_def ConfigElement_fromstring_def ConfigElement_tostring_def)
qed

text \<open>
  Claim C3, amended. Decoding the encoded value gives the value back for \<open>ConfigBoolean\<close>
  over both booleans; for \<open>ConfigInteger\<close> (and \<open>ConfigDateTime\<close>, \<open>ConfigSlider\<close>) over
  all integers; and for \<open>ConfigSequence\<close> with any limits, when the value has at least one
  field and no fewer fields than the limits, and the separator is not empty and does not
  begin with a digit or a minus sign. With the base-class codec of \<open>ConfigText\<close>,
  \<open>ConfigNumber\<close> and \<open>ConfigSelection\<close>, decoding the encoded value gives \<open>str(v)\<close>, which
  equals \<open>v\<close> exactly when \<open>v\<close> is a string.
\<close>

theorem codec_roundtrip:
  "ConfigBoolean_fromstring (ConfigBoolean_tostring b) = b
   \<and> ConfigInteger_fromstring (ConfigInteger_tostring i) = Inr i
   \<and> (sep \<noteq> [] \<and> \<not> num_chr (hd sep) \<and> vs \<noteq> [] \<and> length lims \<le> length vs
        \<longrightarrow> ConfigSequence_fromstring sep lims (ConfigSequence_tostring sep vs) = Inr vs)
   \<and> ConfigElement_fromstring (PStr (ConfigElement_tostring v)) = PStr (py_str v)
   \<and> (py_eq (ConfigElement_fromstring (PStr (ConfigElement_tostring v))) v \<longleftrightarrow> (\<exists>s. v = PStr s))"
proof (intro conjI impI)
  show "ConfigBoolean_fromstring (ConfigBoolean_tostring b) = b" by (rule ConfigBoolean_roundtrip)
  show "ConfigInteger_fromstring (ConfigInteger_tostring i) = Inr i"
    by (simp add: ConfigInteger_fromstring_def ConfigInteger_tostring_def py_int_str_int)
  show "ConfigElement_fromstring (PStr (ConfigElement_tostring v)) = PStr (py_str v)"
    by (simp add: ConfigElement_fromstring_def ConfigElement_tostring_def)
  show "py_eq (ConfigElement_fromstring (PStr (ConfigElement_tostring v))) v \<longleftrightarrow> (\<exists>s. v = PStr s)"
    by (cases v) (simp_all add: ConfigElement_fromstring_def ConfigElement_tostring_def)
next
  assume "sep \<noteq> [] \<and> \<not> num_chr (hd sep) \<and> vs \<noteq> [] \<and> length lims \<le> length vs"
  then show "ConfigSequence_fromstring sep lims (ConfigSequence_tostring sep vs) = Inr vs"
    using ConfigSequence_roundtrip by blast
qed

theorem codec_roundtrip_witness:
  "''.'' \<noteq> [] \<and> \<not> num_chr (hd ''.'') \<and> [192, 168, 0, 1] \<noteq> ([] :: int list)
   \<and> length ip_limits \<le> length [192, 168, 0, 1 :: int]
   \<and> ConfigSequence_fromstring ''.'' ip_limits (ConfigSequence_tostring ''.'' [192, 168, 0, 1])
       = Inr [192, 168, 0, 1]"
proof -
  have h: "''.'' \<noteq> [] \<and> \<not> num_chr (hd ''.'') \<and> [192, 168, 0, 1] \<noteq> ([] :: int list)
   \<and> length ip_limits \<le> length [192, 168, 0, 1 :: int]"
    by (simp add: num_chr_def is_digit_def ip_limits_def)
  with codec_roundtrip[of True 0 "''.''" "[192, 168, 0, 1]" ip_limits PNone] show ?thesis by blast
qed

section \<open>Properties of the containers and of the persistence codec\<close>

text \<open>
  Claim C4 says that keys made of digits are sorted by their numeric value, so that
  \<open>"10"\<close> comes after \<open>"2"\<close>. The sort key is \<open>str(x[0])\<close> for such a key, the string
  itself, and the strings are compared: after loading \<open>config.2=a\<close> and \<open>config.10=b\<close>
  the output lists \<open>config.10\<close> first.
\<close>

theorem pickle_numeric_keys_as_strings:
  "map_sum id pickle
     (unpickle [''config.2=a'', ''config.10=b''] (Subsection [] [] :: bool node))
   = Inr (''config.10=b'' @ [CHR 0x0A] @ ''config.2=a'' @ [CHR 0x0A])"
  by (simp add: unpickle_def unpickle_line_def pickle_def pickle_key_def isdigit_def is_digit_def
        dotted_def strip_def is_space_def)

lemma deploy_element:
  assumes "fromstring sv = Inr v"
  shows "deploy (ConfigElement_load fromstring) (Some sv) (Element e)
         = Inr (Element (changed (e\<lparr>saved_value := Some sv, el_value := v\<rparr>)))"
  using assms by (simp add: deploy_def ConfigElement_load_def)

text \<open>
  Claim C9. In each of the three containers, attaching an element under a key for which
  the stored-value cache holds \<open>sv\<close> places the element in the container with
  \<open>saved_value\<close> set to \<open>sv\<close> and, after the \<open>load()\<close> of the base class (one call of
  \<open>changed()\<close>), with the decoded \<open>sv\<close> as its value, whatever its default is. For a
  child of any kind, a subsection assigns \<open>sv\<close> through the child's \<open>setSavedValue\<close> and
  then calls its \<open>load()\<close>.
\<close>

theorem attach_loads_stored_value:
  "(name \<noteq> ''saved_value'' \<and> map_of stored name = Some sv \<and> fromstring sv = Inr v
      \<longrightarrow> Subsection_setattr (ConfigElement_load fromstring) name (Element e) (Subsection items stored)
          = Inr (Subsection (AList.update name
                   (Element (changed (e\<lparr>saved_value := Some sv, el_value := v\<rparr>))) items) stored))
   \<and> (map_of stored (str_int (int (length xs))) = Some sv \<and> fromstring sv = Inr v
      \<longrightarrow> SubList_append (ConfigElement_load fromstring) (Element e) (SubList xs stored)
          = Inr (SubList (xs @ [Element (changed (e\<lparr>saved_value := Some sv, el_value := v\<rparr>))]) stored))
   \<and> (map_of stored (py_str key) = Some sv \<and> fromstring sv = Inr v
      \<longrightarrow> SubDict_setitem (ConfigElement_load fromstring) key (Element e) (SubDict ditems stored)
          = Inr (SubDict (AList.update key
                   (Element (changed (e\<lparr>saved_value := Some sv, el_value := v\<rparr>))) ditems) stored))
   \<and> (map_of stored name = Some sv \<and> name \<noteq> ''saved_value''
      \<longrightarrow> Subsection_setattr ld name child (Subsection items stored)
          = (case setSavedValue sv child of
               Inl err \<Rightarrow> Inl err
             | Inr c \<Rightarrow> (case node_load ld c of
                           Inl err \<Rightarrow> Inl err
                         | Inr c' \<Rightarrow> Inr (Subsection (AList.update name c' items) stored))))"
proof (intro conjI impI)
  assume "name \<noteq> ''saved_value'' \<and> map_of stored name = Some sv \<and> fromstring sv = Inr v"
  then show "Subsection_setattr (ConfigElement_load fromstring) name (Element e) (Subsection items stored)
          = Inr (Subsection (AList.update name
                   (Element (changed (e\<lparr>saved_value := Some sv, el_value := v\<rparr>))) items) stored)"
    by (simp add: Subsection_setattr_def deploy_element)
next
  assume "map_of stored (str_int (int (length xs))) = Some sv \<and> fromstring sv = Inr v"
  then show "SubList_append (ConfigElement_load fromstring) (Element e) (SubList xs stored)
          = Inr (SubList (xs @ [Element (changed (e\<lparr>saved_value := Some sv, el_value := v\<rparr>))]) stored)"
    by (simp add: SubList_append_def deploy_element Let_def)
next
  assume "map_of stored (py_str key) = Some sv \<and> fromstring sv = Inr v"
  then show "SubDict_setitem (ConfigElement_load fromstring) key (Element e) (SubDict ditems stored)
          = Inr (SubDict (AList.update key
                   (Element (changed (e\<lparr>saved_value := Some sv, el_value := v\<rparr>))) ditems) stored)"
    by (simp add: SubDict_setitem_def deploy_element)
next
  assume "map_of stored name = Some sv \<and> name \<noteq> ''saved_value''"
  then show "Subsection_setattr ld name child (Subsection items stored)
          = (case setSavedValue sv child of
               Inl err \<Rightarrow> Inl err
             | Inr c \<Rightarrow> (case node_load ld c of
                           Inl err \<Rightarrow> Inl err
                         | Inr c' \<Rightarrow> Inr (Subsection (AList.update name c' items) stored)))"
    by (simp add: Subsection_setattr_def deploy_def split: sum.splits)
qed

theorem attach_loads_stored_value_witness:
  "''x'' \<noteq> ''saved_value'' \<and> map_of [(''x'', SStr ''true''), (''0'', SStr ''true'')] ''x'' = Some (SStr ''true'')
   \<and> ConfigBoolean_decode (SStr ''true'') = Inr True
   \<and> map_of [(''x'', SStr ''true''), (''0'', SStr ''true'')] (str_int (int (length ([] :: bool node list)))) = Some (SStr ''true'')
   \<and> map_of [(''x'', SStr ''true''), (''0'', SStr ''true'')] (py_str (PInt 0)) = Some (SStr ''true'')
   \<and> Subsection_setattr (ConfigElement_load ConfigBoolean_decode) ''x'' (Element (ConfigBoolean_init False))
          (Subsection [] [(''x'', SStr ''true''), (''0'', SStr ''true'')])
       = Inr (Subsection [(''x'', Element (changed ((ConfigBoolean_init False)
                 \<lparr>saved_value := Some (SStr ''true''), el_value := True\<rparr>)))]
               [(''x'', SStr ''true''), (''0'', SStr ''true'')])"
proof -
  let ?st = "[(''x'', SStr ''true''), (''0'', SStr ''true'')]"
  have s0: "str_int 0 = ''0''" by (simp add: str_int_def digits_of.simps digit_chr_def)
  have h1: "''x'' \<noteq> ''saved_value'' \<and> map_of ?st ''x'' = Some (SStr ''true'')
      \<and> ConfigBoolean_decode (SStr ''true'') = Inr True"
    by (simp add: ConfigBoolean_decode_def ConfigBoolean_fromstring_def trueValues_def lower_def lower_chr_def)
  have h2: "map_of ?st (str_int (int (length ([] :: bool node list)))) = Some (SStr ''true'')"
    by (simp add: s0)
  have h3: "map_of ?st (py_str (PInt 0)) = Some (SStr ''true'')" by (simp add: s0)
  from attach_loads_stored_value[of "''x''" ?st "SStr ''true''" ConfigBoolean_decode True
         "ConfigBoolean_init False" "[]" "[]" "PInt 0" "[]" "ConfigElement_load ConfigBoolean_decode" "Element (ConfigBoolean_init False)"]
    h1 h2 h3
  show ?thesis by simp
qed

lemma section_saved_other:
  "key \<notin> fst ` set items \<Longrightarrow> map_of (section_saved items res) key = map_of res key"
proof (induction items arbitrary: res)
  case Nil
  then show ?case by simp
next
  case (Cons kv rest)
  then have "fst kv \<noteq> key" "key \<notin> fst ` set rest" by auto
  with Cons.IH show ?case
    by (simp add: update_conv' delete_conv' split: option.splits)
qed

lemma section_saved_key:
  "distinct (map fst items) \<Longrightarrow> (key, c) \<in> set items
   \<Longrightarrow> map_of (section_saved items res) key = getSavedValue c"
proof (induction items arbitrary: res)
  case Nil
  then show ?case by simp
next
  case (Cons kv rest)
  show ?case
  proof (cases "kv = (key, c)")
    case True
    with Cons.prems have "key \<notin> fst ` set rest" by auto
    with True show ?thesis
      by (simp add: section_saved_other update_conv' delete_conv' split: option.splits)
  next
    case False
    with Cons.prems have "(key, c) \<in> set rest" "distinct (map fst rest)" by auto
    with Cons.IH show ?thesis by simp
  qed
qed

lemma dict_saved_other:
  "key \<notin> (\<lambda>kv. py_str (fst kv)) ` set items \<Longrightarrow> map_of (dict_saved items res) key = map_of res key"
proof (induction items arbitrary: res)
  case Nil
  then show ?case by simp
next
  case (Cons kv rest)
  then have "py_str (fst kv) \<noteq> key" "key \<notin> (\<lambda>kv. py_str (fst kv)) ` set rest" by auto
  with Cons.IH show ?case
    by (simp add: update_conv' split: option.splits)
qed

lemma dict_saved_key:
  "distinct (map (\<lambda>kv. py_str (fst kv)) items) \<Longrightarrow> (k, c) \<in> set items
   \<Longrightarrow> map_of (dict_saved items []) (py_str k) = getSavedValue c"
proof -
  have g: "distinct (map (\<lambda>kv. py_str (fst kv)) items) \<Longrightarrow> (k, c) \<in> set items
     \<Longrightarrow> map_of (dict_saved items res) (py_str k)
         = (case getSavedValue c of Some sv \<Rightarrow> Some sv | None \<Rightarrow> map_of res (py_str k))" for res
  proof (induction items arbitrary: res)
    case Nil
    then show ?case by simp
  next
    case (Cons kv rest)
    show ?case
    proof (cases "kv = (k, c)")
      case True
      with Cons.prems have "py_str k \<notin> (\<lambda>kv. py_str (fst kv)) ` set rest" by auto
      with True show ?thesis
        by (simp add: dict_saved_other update_conv' split: option.splits)
    next
      case False
      with Cons.prems have r: "(k, c) \<in> set rest" "distinct (map (\<lambda>kv. py_str (fst kv)) rest)" by auto
      with Cons.prems have "py_str (fst kv) \<noteq> py_str k" by force
      with Cons.IH[OF r(2,1)] show ?thesis by (simp add: update_conv' split: option.splits)
    qed
  qed
  assume "distinct (map (\<lambda>kv. py_str (fst kv)) items)" "(k, c) \<in> set items"
  from g[OF this, of "[]"] show ?thesis by (simp split: option.splits)
qed

lemma str_int_inj: "str_int a = str_int b \<Longrightarrow> a = b"
proof -
  assume "str_int a = str_int b"
  then have "py_int (str_int a) = py_int (str_int b)" by simp
  then show ?thesis by (simp add: py_int_str_int)
qed

lemma list_saved_at:
  "map_of (list_saved i xs res) (str_int (int j))
   = (if i \<le> j \<and> j < i + length xs
      then (case getSavedValue (xs ! (j - i)) of Some sv \<Rightarrow> Some sv | None \<Rightarrow> map_of res (str_int (int j)))
      else map_of res (str_int (int j)))"
proof (induction xs arbitrary: i res)
  case Nil
  then show ?case by auto
next
  case (Cons x rest)
  show ?case
  proof (cases "j = i")
    case True
    have r: "map_of (list_saved (Suc i) rest R) (str_int (int i)) = map_of R (str_int (int i))" for R
      using Cons.IH[of "Suc i" R] True by simp
    from True show ?thesis by (simp add: r update_conv' split: option.splits)
  next
    case False
    then have ne: "str_int (int i) \<noteq> str_int (int j)" using str_int_inj by fastforce
    show ?thesis
    proof (cases "i < j")
      case True
      then have "(x # rest) ! (j - i) = rest ! (j - Suc i)" by (simp add: nth_Cons')
      with True ne show ?thesis by (auto simp add: Cons.IH update_conv' split: option.splits)
    next
      case f: False
      with False ne show ?thesis by (auto simp add: Cons.IH update_conv' split: option.splits)
    qed
  qed
qed

lemma save_None:
  "save_disabled e \<or> (el_value e = dflt e \<and> \<not> save_forced e)
   \<Longrightarrow> saved_value (ConfigElement_save tostring e) = None"
  by (auto simp: ConfigElement_save_def changedFinal_def Let_def)

lemma save_Some:
  "\<not> save_disabled e \<and> (save_forced e \<or> el_value e \<noteq> dflt e)
   \<Longrightarrow> saved_value (ConfigElement_save tostring e) = Some (SStr (tostring (el_value e)))"
  by (auto simp: ConfigElement_save_def changedFinal_def Let_def)

lemma snapshot_section:
  "distinct (map fst items) \<Longrightarrow> (key, Element e) \<in> set items
   \<Longrightarrow> map_of (snapshot (Subsection items stored)) key = saved_value e"
  using section_saved_key[of items key "Element e" stored] by (simp add: snapshot_def)

lemma snapshot_list:
  "i < length xs \<Longrightarrow> xs ! i = Element e
   \<Longrightarrow> map_of (snapshot (SubList xs stored)) (str_int (int i)) = saved_value e"
  using list_saved_at[of 0 xs "[]" i] by (simp add: snapshot_def split: option.splits)

lemma snapshot_dict:
  "distinct (map (\<lambda>kv. py_str (fst kv)) ditems) \<Longrightarrow> (k, Element e) \<in> set ditems
   \<Longrightarrow> map_of (snapshot (SubDict ditems stored)) (py_str k) = saved_value e"
  using dict_saved_key[of ditems k "Element e"] by (simp add: snapshot_def)

text \<open>
  Claim C2, amended. After \<open>ConfigElement.save\<close>: when \<open>save_disabled\<close> is set, or the value
  equals the default and \<open>save_forced\<close> is not set, \<open>saved_value\<close> is \<open>None\<close> and the
  element's key is absent from the snapshot of the subsection, list or dictionary that
  holds the element; when \<open>save_disabled\<close> is not set and \<open>save_forced\<close> is set (or the
  value differs from the default), \<open>saved_value\<close> is the encoded value and the key is
  present with it. The keys of a container are distinct, for a dictionary also in their
  string form.
\<close>

theorem save_omission:
  "(save_disabled e \<or> (el_value e = dflt e \<and> \<not> save_forced e)
      \<longrightarrow> saved_value (ConfigElement_save tostring e) = None
        \<and> (distinct (map fst items) \<and> (key, Element (ConfigElement_save tostring e)) \<in> set items
             \<longrightarrow> map_of (snapshot (Subsection items stored)) key = None)
        \<and> (i < length xs \<and> xs ! i = Element (ConfigElement_save tostring e)
             \<longrightarrow> map_of (snapshot (SubList xs stored)) (str_int (int i)) = None)
        \<and> (distinct (map (\<lambda>kv. py_str (fst kv)) ditems)
               \<and> (k, Element (ConfigElement_save tostring e)) \<in> set ditems
             \<longrightarrow> map_of (snapshot (SubDict ditems stored)) (py_str k) = None))
   \<and> (\<not> save_disabled e \<and> (save_forced e \<or> el_value e \<noteq> dflt e)
      \<longrightarrow> saved_value (ConfigElement_save tostring e) = Some (SStr (tostring (el_value e)))
        \<and> (distinct (map fst items) \<and> (key, Element (ConfigElement_save tostring e)) \<in> set items
             \<longrightarrow> map_of (snapshot (Subsection items stored)) key = Some (SStr (tostring (el_value e))))
        \<and> (i < length xs \<and> xs ! i = Element (ConfigElement_save tostring e)
             \<longrightarrow> map_of (snapshot (SubList xs stored)) (str_int (int i)) = Some (SStr (tostring (el_value e))))
        \<and> (distinct (map (\<lambda>kv. py_str (fst kv)) ditems)
               \<and> (k, Element (ConfigElement_save tostring e)) \<in> set ditems
             \<longrightarrow> map_of (snapshot (SubDict ditems stored)) (py_str k) = Some (SStr (tostring (el_value e)))))"
proof (intro conjI impI)
  assume a: "save_disabled e \<or> (el_value e = dflt e \<and> \<not> save_forced e)"
  show n: "saved_value (ConfigElement_save tostring e) = None" using a by (rule save_None)
  { assume "distinct (map fst items) \<and> (key, Element (ConfigElement_save tostring e)) \<in> set items"
    then show "map_of (snapshot (Subsection items stored)) key = None"
      using snapshot_section n by metis }
  { assume "i < length xs \<and> xs ! i = Element (ConfigElement_save tostring e)"
    then show "map_of (snapshot (SubList xs stored)) (str_int (int i)) = None"
      using snapshot_list n by metis }
  { assume "distinct (map (\<lambda>kv. py_str (fst kv)) ditems) \<and> (k, Element (ConfigElement_save tostring e)) \<in> set ditems"
    then show "map_of (snapshot (SubDict ditems stored)) (py_str k) = None"
      using snapshot_dict n by metis }
next
  assume a: "\<not> save_disabled e \<and> (save_forced e \<or> el_value e \<noteq> dflt e)"
  show n: "saved_value (ConfigElement_save tostring e) = Some (SStr (tostring (el_value e)))"
    using a by (rule save_Some)
  { assume "distinct (map fst items) \<and> (key, Element (ConfigElement_save tostring e)) \<in> set items"
    then show "map_of (snapshot (Subsection items stored)) key = Some (SStr (tostring (el_value e)))"
      using snapshot_section n by metis }
  { assume "i < length xs \<and> xs ! i = Element (ConfigElement_save tostring e)"
    then show "map_of (snapshot (SubList xs stored)) (str_int (int i)) = Some (SStr (tostring (el_value e)))"
      using snapshot_list n by metis }
  { assume "distinct (map (\<lambda>kv. py_str (fst kv)) ditems) \<and> (k, Element (ConfigElement_save tostring e)) \<in> set ditems"
    then show "map_of (snapshot (SubDict ditems stored)) (py_str k) = Some (SStr (tostring (el_value e)))"
      using snapshot_dict n by metis }
qed

text \<open>
  Claim C2 as stated promises the element in the snapshot whenever \<open>save_forced\<close> is
  set. With \<open>save_disabled\<close> set as well, \<open>save\<close> stores \<open>None\<close> and the key is absent.
\<close>

theorem save_forced_disabled_counterexample:
  "save_forced ((ConfigBoolean_init False)\<lparr>save_disabled := True, save_forced := True\<rparr>)
   \<and> map_of (snapshot (Subsection
        [(''x'', Element (ConfigElement_save ConfigBoolean_tostring
                   ((ConfigBoolean_init False)\<lparr>save_disabled := True, save_forced := True\<rparr>)))] [])) ''x''
      = None"
  by (simp add: snapshot_def ConfigElement_save_def ConfigBoolean_init_def)

theorem save_omission_witness:
  "(el_value (ConfigBoolean_init False) = dflt (ConfigBoolean_init False)
      \<and> \<not> save_forced (ConfigBoolean_init False))
   \<and> map_of (snapshot (Subsection
          [(''x'', Element (ConfigElement_save ConfigBoolean_tostring (ConfigBoolean_init False)))] [])) ''x'' = None
   \<and> map_of (snapshot (SubList
          [Element (ConfigElement_save ConfigBoolean_tostring (ConfigBoolean_init False))] [])) (str_int (int 0)) = None
   \<and> map_of (snapshot (SubDict
          [(PStr ''x'', Element (ConfigElement_save ConfigBoolean_tostring (ConfigBoolean_init False)))] []))
          (py_str (PStr ''x'')) = None
   \<and> (\<not> save_disabled ((ConfigBoolean_init False)\<lparr>save_forced := True\<rparr>)
      \<and> save_forced ((ConfigBoolean_init False)\<lparr>save_forced := True\<rparr>))
   \<and> map_of (snapshot (Subsection
          [(''x'', Element (ConfigElement_save ConfigBoolean_tostring
                     ((ConfigBoolean_init False)\<lparr>save_forced := True\<rparr>)))] [])) ''x''
       = Some (SStr ''False'')"
proof -
  let ?e1 = "ConfigBoolean_init False"
  let ?e2 = "(ConfigBoolean_init False)\<lparr>save_forced := True\<rparr>"
  let ?s1 = "ConfigElement_save ConfigBoolean_tostring ?e1"
  let ?s2 = "ConfigElement_save ConfigBoolean_tostring ?e2"
  have h1: "el_value ?e1 = dflt ?e1 \<and> \<not> save_forced ?e1" by (simp add: ConfigBoolean_init_def)
  have h2: "\<not> save_disabled ?e2 \<and> save_forced ?e2" by (simp add: ConfigBoolean_init_def)
  have t: "ConfigBoolean_tostring (el_value ?e2) = ''False''"
    by (simp add: ConfigBoolean_tostring_def ConfigBoolean_init_def)
  have a: "map_of (snapshot (Subsection [(''x'', Element ?s1)] [])) ''x'' = None"
       "map_of (snapshot (SubList [Element ?s1] [])) (str_int (int 0)) = None"
       "map_of (snapshot (SubDict [(PStr ''x'', Element ?s1)] [])) (py_str (PStr ''x'')) = None"
    using save_omission[of ?e1 ConfigBoolean_tostring "[(''x'', Element ?s1)]" "''x''" "[]" 0
            "[Element ?s1]" "[(PStr ''x'', Element ?s1)]" "PStr ''x''"] h1
    by simp_all
  have b: "map_of (snapshot (Subsection [(''x'', Element ?s2)] [])) ''x'' = Some (SStr ''False'')"
    using save_omission[of ?e2 ConfigBoolean_tostring "[(''x'', Element ?s2)]" "''x''" "[]" 0
            "[Element ?s2]" "[(PStr ''x'', Element ?s2)]" "PStr ''x''"] h2 t
    by simp
  from h1 h2 a b show ?thesis by blast
qed

lemma section_set_keys: "section_set d items = Inr items' \<Longrightarrow> map fst items' = map fst items"
proof (induction items arbitrary: items')
  case Nil
  then show ?case by simp
next
  case (Cons kv rest)
  then show ?case by (auto split: sum.splits option.splits)
qed

lemma section_set_child:
  "section_set d items = Inr items' \<Longrightarrow> map_of items k = Some c
   \<Longrightarrow> \<exists>c'. map_of items' k = Some c'
          \<and> (case map_of d k of None \<Rightarrow> c' = c | Some x \<Rightarrow> setSavedValue x c = Inr c')"
proof (induction items arbitrary: items')
  case Nil
  then show ?case by simp
next
  case (Cons kv rest)
  obtain k0 c0 where kv: "kv = (k0, c0)" by (cases kv)
  from Cons.prems(1) kv obtain c0' rest' where
    s: "(case map_of d k0 of None \<Rightarrow> Inr c0 | Some x \<Rightarrow> setSavedValue x c0) = Inr c0'"
       "section_set d rest = Inr rest'" "items' = (k0, c0') # rest'"
    by (cases "map_of d k0") (auto split: sum.splits)
  show ?case
  proof (cases "k0 = k")
    case True
    with Cons.prems(2) kv have "c0 = c" by simp
    with s True show ?thesis by (auto split: option.splits)
  next
    case False
    with Cons.prems(2) kv have "map_of rest k = Some c" by simp
    from Cons.IH[OF s(2) this] s(3) False show ?thesis by simp
  qed
qed

lemma unpickled_key_kept:
  "setSavedValue sv n = Inr n' \<Longrightarrow> unattached n ks \<Longrightarrow> lookup_saved sv ks = Some (SStr v)
   \<Longrightarrow> \<exists>sv'. getSavedValue n' = Some sv' \<and> lookup_saved sv' ks = Some (SStr v)"
proof (induction n ks arbitrary: sv n' rule: unattached.induct)
  case (1 n)
  then show ?case by simp
next
  case (2 e k ks)
  then show ?case by auto
next
  case (3 items stored k ks)
  from "3.prems"(3) obtain d where sv: "sv = SDict d" by (cases sv) auto
  with "3.prems"(3) obtain x where x: "map_of d k = Some x" "lookup_saved x ks = Some (SStr v)"
    by (auto split: option.splits)
  from "3.prems"(1) sv obtain items' where
    it: "section_set d items = Inr items'" "n' = Subsection items' d"
    by (auto split: sum.splits)
  have keys: "map fst items' = map fst items" using it(1) by (rule section_set_keys)
  from "3.prems"(2) have dist: "distinct (map fst items)" by simp
  show ?case
  proof (cases "map_of items k")
    case None
    then have "k \<notin> fst ` set items" by (simp add: map_of_eq_None_iff)
    then have "k \<notin> fst ` set items'" using keys by (metis set_map)
    then have "map_of (section_saved items' d) k = map_of d k" by (rule section_saved_other)
    with x it(2) show ?thesis by simp
  next
    case (Some c)
    from section_set_child[OF it(1) Some] x(1) obtain c' where
      c': "map_of items' k = Some c'" "setSavedValue x c = Inr c'" by auto
    from "3.prems"(2) Some have u: "unattached c ks" by simp
    from "3.IH"[OF Some c'(2) u x(2)] obtain sv' where
      sv': "getSavedValue c' = Some sv'" "lookup_saved sv' ks = Some (SStr v)" by blast
    from c'(1) have "(k, c') \<in> set items'" by (rule map_of_SomeD)
    moreover from dist keys have "distinct (map fst items')" by simp
    ultimately have "map_of (section_saved items' d) k = getSavedValue c'"
      using section_saved_key by fastforce
    with sv' it(2) show ?thesis by simp
  qed
next
  case (4 xs stored k ks)
  then show ?case by simp
next
  case (5 items stored k ks)
  then show ?case by simp
qed

lemma pickle_emits:
  "(\<exists>pairs. pickle_this prefix d result = result @ concat (map line_group pairs)
      \<and> (\<forall>ks v. ks \<noteq> [] \<and> lookup_saved (SDict d) ks = Some (SStr v)
            \<longrightarrow> (path_name prefix ks, v) \<in> set pairs))"
  "(\<exists>pairs. pickle_items prefix items result = result @ concat (map line_group pairs)
      \<and> (\<forall>k x ks v. (k, x) \<in> set items \<and> lookup_saved x ks = Some (SStr v)
            \<longrightarrow> (path_name (dotted prefix k) ks, v) \<in> set pairs))"
proof (induction prefix d result and prefix items result rule: pickle_this_pickle_items.induct)
  case (1 prefix topickle result)
  then obtain pairs where
    p: "pickle_items prefix (sort_key pickle_key topickle) result = result @ concat (map line_group pairs)"
       "\<forall>k x ks v. (k, x) \<in> set (sort_key pickle_key topickle) \<and> lookup_saved x ks = Some (SStr v)
            \<longrightarrow> (path_name (dotted prefix k) ks, v) \<in> set pairs"
    by blast
  have "(path_name prefix ks, v) \<in> set pairs"
    if a: "ks \<noteq> []" "lookup_saved (SDict topickle) ks = Some (SStr v)" for ks v
  proof -
    from a obtain k ks' where ks: "ks = k # ks'" by (cases ks) auto
    with a obtain x where x: "map_of topickle k = Some x" "lookup_saved x ks' = Some (SStr v)"
      by (auto split: option.splits)
    from x(1) have "(k, x) \<in> set (sort_key pickle_key topickle)" by (simp add: map_of_SomeD)
    with p(2) x(2) have "(path_name (dotted prefix k) ks', v) \<in> set pairs" by blast
    then show ?thesis by (simp add: ks path_name_def)
  qed
  with p(1) show ?case by auto
next
  case (2 prefix result)
  have "pickle_items prefix [] result = result @ concat (map line_group [])" by simp
  then show ?case by fastforce
next
  case (3 prefix key d rest result)
  from "3.IH"(1) obtain p1 where
    p1: "pickle_this (dotted prefix key) d result = result @ concat (map line_group p1)"
        "\<forall>ks v. ks \<noteq> [] \<and> lookup_saved (SDict d) ks = Some (SStr v)
            \<longrightarrow> (path_name (dotted prefix key) ks, v) \<in> set p1"
    by blast
  from "3.IH"(2) obtain p2 where
    p2: "pickle_items prefix rest (pickle_this (dotted prefix key) d result)
           = pickle_this (dotted prefix key) d result @ concat (map line_group p2)"
        "\<forall>k x ks v. (k, x) \<in> set rest \<and> lookup_saved x ks = Some (SStr v)
            \<longrightarrow> (path_name (dotted prefix k) ks, v) \<in> set p2"
    by blast
  have e: "pickle_items prefix ((key, SDict d) # rest) result = result @ concat (map line_group (p1 @ p2))"
    using p1(1) p2(1) by simp
  have "(path_name (dotted prefix k) ks, v) \<in> set (p1 @ p2)"
    if a: "(k, x) \<in> set ((key, SDict d) # rest)" "lookup_saved x ks = Some (SStr v)" for k x ks v
  proof (cases "(k, x) = (key, SDict d)")
    case True
    with a(2) have "ks \<noteq> []" by (cases ks) auto
    with True a(2) p1(2) show ?thesis by auto
  next
    case False
    with a p2(2) show ?thesis by auto
  qed
  with e show ?case by blast
next
  case (4 prefix key s rest result)
  from "4.IH" obtain p2 where
    p2: "pickle_items prefix rest (result @ [dotted prefix key, ''='', s, [CHR 0x0A]])
           = (result @ [dotted prefix key, ''='', s, [CHR 0x0A]]) @ concat (map line_group p2)"
        "\<forall>k x ks v. (k, x) \<in> set rest \<and> lookup_saved x ks = Some (SStr v)
            \<longrightarrow> (path_name (dotted prefix k) ks, v) \<in> set p2"
    by blast
  have e: "pickle_items prefix ((key, SStr s) # rest) result
      = result @ concat (map line_group ((dotted prefix key, s) # p2))"
    using p2(1) by (simp add: line_group_def)
  have "(path_name (dotted prefix k) ks, v) \<in> set ((dotted prefix key, s) # p2)"
    if a: "(k, x) \<in> set ((key, SStr s) # rest)" "lookup_saved x ks = Some (SStr v)" for k x ks v
  proof (cases "(k, x) = (key, SStr s)")
    case True
    with a(2) have "ks = []" "v = s" by (cases ks; simp)+
    with True show ?thesis by (simp add: path_name_def)
  next
    case False
    with a p2(2) show ?thesis by auto
  qed
  with e show ?case by blast
qed

lemma groups_end_newline:
  "concat (concat (map line_group ps)) = [] \<or> last (concat (concat (map line_group ps))) = CHR 0x0A"
proof (induction ps rule: rev_induct)
  case Nil
  then show ?case by simp
next
  case (snoc p ps)
  have "concat (concat (map line_group (ps @ [p])))
      = concat (concat (map line_group ps)) @ fst p @ ''='' @ snd p @ [CHR 0x0A]"
    by (simp add: line_group_def)
  then show ?case by simp
qed

lemma pair_emitted:
  assumes "(name, v) \<in> set pairs"
  shows "\<exists>a b. concat (concat (map line_group pairs)) = a @ (name @ ''='' @ v @ [CHR 0x0A]) @ b
           \<and> (a = [] \<or> last a = CHR 0x0A)"
proof -
  from assms obtain p1 p2 where "pairs = p1 @ (name, v) # p2" by (meson split_list)
  then have "concat (concat (map line_group pairs))
      = concat (concat (map line_group p1)) @ (name @ ''='' @ v @ [CHR 0x0A]) @ concat (concat (map line_group p2))"
    by (simp add: line_group_def)
  with groups_end_newline[of p1] show ?thesis by blast
qed

text \<open>
  A line that is stored puts its stripped value into the tree under \<open>names[1:]\<close>.
\<close>

lemma tree_store_lookup:
  "tree_store ns leaf val base = Inr base'
   \<Longrightarrow> lookup_saved (SDict base') (ns @ [leaf]) = Some (SStr val)"
proof (induction ns arbitrary: base base')
  case Nil
  then show ?case by (auto simp: update_conv')
next
  case (Cons n ns)
  show ?case
  proof (cases "map_of base n")
    case None
    with Cons.prems obtain sub where
      s: "tree_store ns leaf val [] = Inr sub" "base' = AList.update n (SDict sub) base"
      by (auto split: sum.splits)
    from Cons.IH[OF s(1)] s(2) show ?thesis by (simp add: update_conv')
  next
    case (Some x)
    with Cons.prems obtain d sub where
      s: "x = SDict d" "tree_store ns leaf val d = Inr sub" "base' = AList.update n (SDict sub) base"
      by (cases x) (auto split: sum.splits)
    from Cons.IH[OF s(2)] s(3) show ?thesis by (simp add: update_conv')
  qed
qed

text \<open>
  Unknown keys below subsections. Let \<open>unpickle\<close> (initial load) parse the lines into
  \<open>tree\<close>, and let \<open>tree\<close> hold the string \<open>v\<close> under the path \<open>ks\<close>, the segments of a key
  after the first. When \<open>ks\<close> leaves the attached tree below subsections only, as
  \<open>unattached\<close> tests, the \<open>pickle\<close> that follows contains the line \<open>config.ks=v\<close>, at
  the start of the output or right after a newline.
\<close>

lemma unknown_key_below_subsections_kept:
  assumes "unpickle_lines lines [] = Inr tree"
    and "lookup_saved (SDict tree) ks = Some (SStr v)"
    and "unattached root ks"
    and "unpickle lines root = Inr root'"
  shows "\<exists>a b. pickle root' = a @ (path_name ''config'' ks @ ''='' @ v @ [CHR 0x0A]) @ b
           \<and> (a = [] \<or> last a = CHR 0x0A)"
proof -
  from assms(1,4) have s: "setSavedValue (SDict tree) root = Inr root'" by (simp add: unpickle_def)
  from unpickled_key_kept[OF s assms(3,2)] obtain sv' where
    sv': "getSavedValue root' = Some sv'" "lookup_saved sv' ks = Some (SStr v)" by blast
  from assms(3) have ne: "ks \<noteq> []" by (cases ks) auto
  with sv'(2) obtain d where d: "sv' = SDict d" by (cases sv'; cases ks) auto
  from pickle_emits(1)[of "''config''" d "[]"] obtain pairs where
    p: "pickle_this ''config'' d [] = concat (map line_group pairs)"
       "\<forall>ks v. ks \<noteq> [] \<and> lookup_saved (SDict d) ks = Some (SStr v)
            \<longrightarrow> (path_name ''config'' ks, v) \<in> set pairs"
    by auto
  from p(2) ne sv'(2) d have "(path_name ''config'' ks, v) \<in> set pairs" by blast
  from pair_emitted[OF this] p(1) sv'(1) d show ?thesis by (simp add: pickle_def)
qed

text \<open>
  Claim C1. The line \<open>config.nim.3.foo=bar\<close> is read by \<open>unpickle\<close> on the initial load
  into a tree in which \<open>config.nim\<close> is attached and has no child \<open>3\<close>, so the key
  resolves to no attached element, and \<open>pickle\<close> follows. The claim, as the comment of
  class \<open>Config\<close> does, has the line emitted again. With \<open>config.nim\<close> a
  \<open>ConfigSubList\<close> or a \<open>ConfigSubDict\<close> the output is empty: their \<open>getSavedValue\<close>
  starts from an empty dictionary, not from the \<open>stored_values\<close> that
  \<open>setSavedValue\<close> has just filled. With \<open>config.nim\<close> a \<open>ConfigSubsection\<close>, whose
  \<open>getSavedValue\<close> starts from \<open>stored_values\<close>, the output is the identical line.
\<close>

theorem unknown_key_under_list_dropped:
  "map_sum id pickle
     (unpickle [''config.nim.3.foo=bar'' @ [CHR 0x0A]] (Subsection [(''nim'', SubList [] [])] [] :: bool node))
   = Inr []
   \<and> map_sum id pickle
     (unpickle [''config.nim.3.foo=bar'' @ [CHR 0x0A]] (Subsection [(''nim'', SubDict [] [])] [] :: bool node))
   = Inr []
   \<and> map_sum id pickle
     (unpickle [''config.nim.3.foo=bar'' @ [CHR 0x0A]] (Subsection [(''nim'', Subsection [] [])] [] :: bool node))
   = Inr (''config.nim.3.foo=bar'' @ [CHR 0x0A])"
proof -
  have l: "unpickle_lines [''config.nim.3.foo=bar'' @ [CHR 0x0A]] []
           = Inr [(''nim'', SDict [(''3'', SDict [(''foo'', SStr ''bar'')])])]"
    by (simp add: unpickle_line_def strip_def is_space_def)
  show ?thesis
    unfolding unpickle_def l
    by (simp add: pickle_def pickle_key_def dotted_def isdigit_def lower_def
          py_int_def strip_def is_space_def is_digit_def nat_of_digits_def digit_val_def Let_def)
qed

section \<open>Digit entry in the sequence editors\<close>

lemma py_int_digits:
  assumes "s \<noteq> []" "list_all is_digit s"
  shows "\<exists>n. py_int s = Inr n"
proof -
  from assms have a: "\<forall>c \<in> set s. is_digit c" by (simp add: list_all_iff)
  with assms(1) have h: "is_digit (hd s)" "is_digit (last s)" by auto
  then have "strip s = s" using assms(1) is_digit_not_space by (intro strip_digits) auto
  moreover obtain c r where cr: "s = c # r" using assms(1) by (cases s) auto
  moreover from h(1) cr have "c \<noteq> CHR ''-''" "c \<noteq> CHR ''+''" by (auto simp: is_digit_def)
  ultimately show ?thesis using assms(2) by (simp add: py_int_def Let_def)
qed

lemma fmt02_digits:
  assumes "0 \<le> i" "i < 100"
  shows "length (fmt02 i) = 2 \<and> list_all is_digit (fmt02 i)"
proof (cases "i < 10")
  case True
  with assms have "nat i < 10" by simp
  then have "digits_of (nat i) = [digit_chr (nat i)]" by (subst digits_of.simps) simp
  with True assms show ?thesis
    using digit_chr_is_digit[of "nat i"] by (simp add: fmt02_def str_int_def is_digit_def)
next
  case False
  with assms have d: "nat i div 10 < 10" "\<not> nat i < 10" by auto
  then have "digits_of (nat i) = [digit_chr (nat i div 10), digit_chr (nat i mod 10)]"
    by (subst digits_of.simps, subst digits_of.simps) simp
  with False assms d show ?thesis
    using digit_chr_is_digit[of "nat i div 10"] digit_chr_is_digit[of "nat i mod 10"]
    by (simp add: fmt02_def str_int_def)
qed

lemma clock_total: "(\<Sum>x\<leftarrow>clock_limits. int (length (str_int (snd x)))) = 4"
  by (simp add: clock_limits_def str_int_def digits_of.simps)

lemma wf_clock_value:
  assumes "wf_clock s"
  obtains h m where "el_value s = [h, m]" "0 \<le> h" "h \<le> 23" "0 \<le> m" "m \<le> 59"
proof -
  from assms have l: "limits s = clock_limits" and r: "fields_in_range s"
    and len: "length (el_value s) = length (limits s)"
    by (auto simp: wf_clock_def wf_seq_def)
  from len l obtain h m where v: "el_value s = [h, m]"
    by (cases "el_value s"; cases "tl (el_value s)") (auto simp: clock_limits_def)
  with r l have "0 \<le> h" "h \<le> 23" "0 \<le> m" "m \<le> 59"
    by (auto simp: fields_in_range_def clock_limits_def)
  with v that show ?thesis by blast
qed

lemma validate_clock:
  assumes "limits s = clock_limits" "length (el_value s) = 2"
  shows "\<exists>s'. validate s = Inr s' \<and> wf_clock (changed s')"
proof -
  from assms have len: "length (el_value s) = length (limits s)" by (simp add: clock_limits_def)
  from assms have ne: "limits s \<noteq> []" by (simp add: clock_limits_def)
  have ok: "limits_ok (limits s)" using assms by (simp add: limits_ok_def clock_limits_def)
  from validate_shape[OF len] ne obtain E P where
    v: "validate s = Inr (s\<lparr>el_value := map2 (\<lambda>v lim. clamp_field lim v) (el_value s) (limits s),
            end_calls := E, marked_pos := P\<rparr>)"
    and P: "0 \<le> P" "P < (\<Sum>x\<leftarrow>limits s. int (length (str_int (snd x))))"
    by blast
  let ?s' = "s\<lparr>el_value := map2 (\<lambda>v lim. clamp_field lim v) (el_value s) (limits s),
            end_calls := E, marked_pos := P\<rparr>"
  have "fields_in_range (changed ?s')"
    using clamped_in_range[OF len ok] by (simp add: fields_in_range_def changed_def)
  moreover have "wf_seq (changed ?s')" using len ok P by (simp add: wf_seq_def changed_def)
  ultimately have "wf_clock (changed ?s')" using assms(1) by (simp add: wf_clock_def changed_def)
  with v show ?thesis by blast
qed

lemma clock_digit_ok:
  assumes "wf_clock s" "0 \<le> digit" "digit \<le> 9"
  shows "\<exists>s'. clock_digit wide digit s = Inr s' \<and> wf_clock s'"
proof -
  from assms(1) obtain h m where v: "el_value s = [h, m]" "0 \<le> h" "h \<le> 23" "0 \<le> m" "m \<le> 59"
    by (rule wf_clock_value)
  from assms(1) have l: "limits s = clock_limits" by (simp add: wf_clock_def)
  from assms(1) l have mp: "0 \<le> marked_pos s" "marked_pos s < 4"
    using clock_total by (auto simp: wf_clock_def wf_seq_def)
  define hour where "hour = fst (clock_hour wide h)"
  define pmadjust where "pmadjust = snd (clock_hour wide h)"
  define stop where "stop = clock_rejects wide (marked_pos s) hour digit"
  have g0: "py_get (el_value s) 0 = Inr h" "py_get (el_value s) 1 = Inr m"
    using v by (simp_all add: py_get_def py_index_def)
  show ?thesis
  proof (cases stop)
    case True
    then have "clock_digit wide digit s = Inr s"
      unfolding clock_digit_def g0 by (simp add: Let_def stop_def hour_def)
    with assms(1) show ?thesis by simp
  next
    case False
    have hr: "0 \<le> hour" "hour < 100" using v by (auto simp: hour_def clock_hour_def Let_def)
    let ?b = "fmt02 hour @ fmt02 m"
    from fmt02_digits[OF hr] fmt02_digits[of m] v
    have b: "length ?b = 4" "list_all is_digit ?b" by auto
    let ?buf = "?b[nat (marked_pos s) := digit_chr (nat digit)]"
    have ps: "py_set ?b (marked_pos s) (digit_chr (nat digit)) = Inr ?buf"
      using b mp by (simp add: py_set_def py_index_def)
    have dc: "is_digit (digit_chr (nat digit))" using assms(2,3) by (intro digit_chr_is_digit) auto
    have bd: "list_all is_digit ?buf" "length ?buf = 4"
      using b dc by (auto simp: list_all_iff dest!: set_update_subset_insert[THEN subsetD])
    then have "take 2 ?buf \<noteq> []" "drop 2 ?buf \<noteq> []" "list_all is_digit (take 2 ?buf)" "list_all is_digit (drop 2 ?buf)"
      by (auto simp: list_all_iff dest: in_set_takeD in_set_dropD)
    then obtain hour2 minute where pi: "py_int (take 2 ?buf) = Inr hour2" "py_int (drop 2 ?buf) = Inr minute"
      using py_int_digits by blast
    define hour3 where "hour3 = (if wide then (if hour2 = 12 then 0 else if hour2 > 12 then 10 else hour2) + pmadjust
                         else if hour2 > 23 then 20 else hour2)"
    have s0: "py_set (el_value s) 0 x = Inr [x, m]" "py_set [x, m] 1 y = Inr [x, y]" for x y
      using v by (simp_all add: py_set_def py_index_def)
    let ?t = "s\<lparr>el_value := [hour3, minute], marked_pos := marked_pos s + 1\<rparr>"
    have "\<exists>s'. validate ?t = Inr s' \<and> wf_clock (changed s')"
      by (rule validate_clock) (simp_all add: l)
    then obtain s' where s': "validate ?t = Inr s'" "wf_clock (changed s')" by blast
    have "clock_digit wide digit s
        = (case validate ?t of Inl e \<Rightarrow> Inl e | Inr s' \<Rightarrow> Inr (changed s'))"
      unfolding clock_digit_def g0 hour3_def pmadjust_def
      using False ps pi
      by (simp add: s0 Let_def stop_def hour_def pmadjust_def split del: if_split)
    with s' show ?thesis by simp
  qed
qed

lemma clock_shift_ok:
  assumes "wf_clock s"
  shows "\<exists>s'. clock_shift b s = Inr s' \<and> wf_clock s'"
proof -
  from assms obtain h m where v: "el_value s = [h, m]" by (rule wf_clock_value)
  from assms have l: "limits s = clock_limits" by (simp add: wf_clock_def)
  have g0: "py_get (el_value s) 0 = Inr h" using v by (simp add: py_get_def py_index_def)
  have s0: "py_set (el_value s) 0 x = Inr [x, m]" for x using v by (simp add: py_set_def py_index_def)
  have R: "\<exists>s'. validate (s\<lparr>el_value := [x, m]\<rparr>) = Inr s' \<and> wf_clock (changed s')" for x
    by (rule validate_clock) (simp_all add: l)
  consider (shift) nv where "clock_shift b s
        = (case validate (s\<lparr>el_value := [nv, m]\<rparr>) of Inl e \<Rightarrow> Inl e | Inr s' \<Rightarrow> Inr (changed s'))"
    | (same) "clock_shift b s = Inr s"
    unfolding clock_shift_def g0 by (cases b; cases "h < 12") (auto simp: s0)
  then show ?thesis
  proof cases
    case (shift nv)
    from R[of nv] obtain s' where "validate (s\<lparr>el_value := [nv, m]\<rparr>) = Inr s'" "wf_clock (changed s')"
      by blast
    with shift show ?thesis by simp
  next
    case same
    with assms show ?thesis by simp
  qed
qed

lemma ConfigClock_digit_ok:
  assumes "wf_clock s" "digit_entry (key, code)"
  shows "\<exists>s'. ConfigClock_handleKey wide key code s = Inr s' \<and> wf_clock s'"
proof (cases "key = ACTIONKEY_ASCII")
  case True
  with assms(2) have c: "48 \<le> code" "code \<le> 57"
    by (auto simp: digit_entry_def in_ACTIONKEY_NUMBERS_def ACTIONKEY_defs)
  with True have "ConfigClock_handleKey wide key code s = clock_digit wide (code - 48) s"
    by (auto simp: ConfigClock_handleKey_def ACTIONKEY_defs)
  with clock_digit_ok[OF assms(1), of "code - 48" wide] c show ?thesis by simp
next
  case False
  with assms(2) have k: "12 \<le> key" "key < 22"
    by (auto simp: digit_entry_def in_ACTIONKEY_NUMBERS_def)
  then have "ConfigClock_handleKey wide key code s = clock_digit wide (key - 12) s"
    by (auto simp: ConfigClock_handleKey_def in_ACTIONKEY_NUMBERS_def getKeyNumber_def ACTIONKEY_defs)
  with clock_digit_ok[OF assms(1), of "key - 12" wide] k show ?thesis by simp
qed

lemma ConfigClock_run_ok:
  assumes "wf_clock s" "list_all digit_entry ks"
  shows "\<exists>s'. run_keys (ConfigClock_handleKey wide) ks s = Inr s' \<and> wf_clock s'"
  using assms
proof (induction ks arbitrary: s)
  case Nil
  then show ?case by simp
next
  case (Cons k ks)
  obtain key code where kc: "k = (key, code)" by (cases k)
  with Cons.prems have d: "digit_entry (key, code)" "list_all digit_entry ks" by auto
  from ConfigClock_digit_ok[OF Cons.prems(1) d(1)] obtain s1 where
    s1: "ConfigClock_handleKey wide key code s = Inr s1" "wf_clock s1" by blast
  from Cons.IH[OF s1(2) d(2)] s1 kc show ?case by auto
qed

lemma fmt02_nonneg:
  assumes "0 \<le> i"
  shows "2 \<le> length (fmt02 i) \<and> list_all is_digit (fmt02 i)"
proof (cases "i < 10")
  case True
  with assms have "0 \<le> i" "i < 100" by auto
  from fmt02_digits[OF this] show ?thesis by simp
next
  case False
  then have n: "\<not> nat i < 10" by simp
  have "digits_of (nat i) = digits_of (nat i div 10) @ [digit_chr (nat i mod 10)]"
    using n by (subst digits_of.simps) simp
  moreover have "digits_of (nat i div 10) \<noteq> []" by (rule digits_of_nonempty)
  ultimately have "2 \<le> length (digits_of (nat i))"
    by (cases "digits_of (nat i div 10)") auto
  with False assms digits_of_all[of "nat i"] show ?thesis by (simp add: fmt02_def str_int_def)
qed

lemma clock_ready_value:
  assumes "clock_ready s"
  obtains h m where "el_value s = [h, m]" "0 \<le> h" "0 \<le> m"
proof -
  from assms have l: "limits s = clock_limits" and len: "length (el_value s) = length (limits s)"
    and nn: "list_all (\<lambda>v. 0 \<le> v) (el_value s)"
    by (auto simp: clock_ready_def wf_seq_def)
  from len l obtain h m where v: "el_value s = [h, m]"
    by (cases "el_value s"; cases "tl (el_value s)") (auto simp: clock_limits_def)
  with nn that show ?thesis by auto
qed

lemma clock_digit_accepts:
  assumes "clock_ready s" "0 \<le> digit" "digit \<le> 9"
    and "\<not> clock_rejects wide (marked_pos s) (fst (clock_hour wide (hd (el_value s)))) digit"
  shows "\<exists>s'. clock_digit wide digit s = Inr s' \<and> wf_clock s'"
proof -
  from assms(1) obtain h m where v: "el_value s = [h, m]" "0 \<le> h" "0 \<le> m"
    by (rule clock_ready_value)
  from assms(1) have l: "limits s = clock_limits" by (simp add: clock_ready_def)
  from assms(1) l have mp: "0 \<le> marked_pos s" "marked_pos s < 4"
    using clock_total by (auto simp: clock_ready_def wf_seq_def)
  define hour where "hour = fst (clock_hour wide h)"
  define pmadjust where "pmadjust = snd (clock_hour wide h)"
  have g0: "py_get (el_value s) 0 = Inr h" "py_get (el_value s) 1 = Inr m"
    using v by (simp_all add: py_get_def py_index_def)
  from assms(4) v have nr: "\<not> clock_rejects wide (marked_pos s) hour digit" by (simp add: hour_def)
  have hr: "0 \<le> hour" using v by (auto simp: hour_def clock_hour_def Let_def)
  let ?b = "fmt02 hour @ fmt02 m"
  from fmt02_nonneg[OF hr] fmt02_nonneg[OF v(3)]
  have b: "4 \<le> length ?b" "list_all is_digit ?b" "2 \<le> length (fmt02 hour)" "2 \<le> length (fmt02 m)" by auto
  let ?buf = "?b[nat (marked_pos s) := digit_chr (nat digit)]"
  have ps: "py_set ?b (marked_pos s) (digit_chr (nat digit)) = Inr ?buf"
    using b mp by (simp add: py_set_def py_index_def)
  have dc: "is_digit (digit_chr (nat digit))" using assms(2,3) by (intro digit_chr_is_digit) auto
  have bd: "list_all is_digit ?buf" "4 \<le> length ?buf"
    using b dc by (auto simp: list_all_iff dest!: set_update_subset_insert[THEN subsetD])
  then have "take 2 ?buf \<noteq> []" "drop 2 ?buf \<noteq> []" "list_all is_digit (take 2 ?buf)" "list_all is_digit (drop 2 ?buf)"
    by (auto simp: list_all_iff dest: in_set_takeD in_set_dropD)
  then obtain hour2 minute where pi: "py_int (take 2 ?buf) = Inr hour2" "py_int (drop 2 ?buf) = Inr minute"
    using py_int_digits by blast
  define hour3 where "hour3 = (if wide then (if hour2 = 12 then 0 else if hour2 > 12 then 10 else hour2) + pmadjust
                         else if hour2 > 23 then 20 else hour2)"
  have s0: "py_set (el_value s) 0 x = Inr [x, m]" "py_set [x, m] 1 y = Inr [x, y]" for x y
    using v by (simp_all add: py_set_def py_index_def)
  let ?t = "s\<lparr>el_value := [hour3, minute], marked_pos := marked_pos s + 1\<rparr>"
  have "\<exists>s'. validate ?t = Inr s' \<and> wf_clock (changed s')"
    by (rule validate_clock) (simp_all add: l)
  then obtain s' where s': "validate ?t = Inr s'" "wf_clock (changed s')" by blast
  have "clock_digit wide digit s
      = (case validate ?t of Inl e \<Rightarrow> Inl e | Inr s' \<Rightarrow> Inr (changed s'))"
    unfolding clock_digit_def g0 hour3_def pmadjust_def
    using nr ps pi
    by (simp add: s0 Let_def hour_def split del: if_split)
  with s' show ?thesis by simp
qed

lemma clock_digit_rejects:
  assumes "clock_ready s"
    and "clock_rejects wide (marked_pos s) (fst (clock_hour wide (hd (el_value s)))) digit"
  shows "clock_digit wide digit s = Inr s"
proof -
  from assms(1) obtain h m where v: "el_value s = [h, m]" by (rule clock_ready_value)
  have g0: "py_get (el_value s) 0 = Inr h" using v by (simp add: py_get_def py_index_def)
  from assms(2) v show ?thesis unfolding clock_digit_def g0 by (simp add: Let_def)
qed

lemma ConfigClock_entry:
  assumes "digit_entry k"
  shows "ConfigClock_handleKey wide (fst k) (snd k) s = clock_digit wide (entry_digit k) s"
    and "0 \<le> entry_digit k" and "entry_digit k \<le> 9"
proof -
  show "ConfigClock_handleKey wide (fst k) (snd k) s = clock_digit wide (entry_digit k) s"
  proof (cases "fst k = ACTIONKEY_ASCII")
    case True
    with assms show ?thesis
      by (auto simp: ConfigClock_handleKey_def entry_digit_def digit_entry_def
            in_ACTIONKEY_NUMBERS_def ACTIONKEY_defs)
  next
    case False
    with assms show ?thesis
      by (auto simp: ConfigClock_handleKey_def entry_digit_def digit_entry_def
            in_ACTIONKEY_NUMBERS_def getKeyNumber_def ACTIONKEY_defs)
  qed
  from assms show "0 \<le> entry_digit k" "entry_digit k \<le> 9"
    by (auto simp: entry_digit_def digit_entry_def in_ACTIONKEY_NUMBERS_def ACTIONKEY_defs)
qed

text \<open>
  Claim C6 as stated holds of every \<open>ConfigSequence\<close>. A \<open>ConfigClock\<close> whose persisted
  value is \<open>25:70\<close> is loaded as \<open>[25, 70]\<close>, since neither \<open>fromstring\<close> nor \<open>load\<close>
  clamps; the digit 9 on the first column is turned away in both display modes before
  \<open>validate()\<close> is reached, and the value stays outside its limits.
\<close>

theorem ConfigClock_rejected_digit_counterexample:
  "map_sum id (\<lambda>c. (el_value c, fields_in_range c))
     (case ConfigElement_load (ConfigSequence_decode '':'' clock_limits)
             ((ConfigSequence_init '':'' clock_limits [12, 0])\<lparr>saved_value := Some (SStr ''25:70'')\<rparr>) of
        Inl e \<Rightarrow> Inl e
      | Inr c \<Rightarrow> ConfigClock_handleKey False (ACTIONKEY_0 + 9) 0 c)
   = Inr ([25, 70], False)
   \<and> map_sum id (\<lambda>c. (el_value c, fields_in_range c))
     (case ConfigElement_load (ConfigSequence_decode '':'' clock_limits)
             ((ConfigSequence_init '':'' clock_limits [12, 0])\<lparr>saved_value := Some (SStr ''25:70'')\<rparr>) of
        Inl e \<Rightarrow> Inl e
      | Inr c \<Rightarrow> ConfigClock_handleKey True (ACTIONKEY_0 + 9) 0 c)
   = Inr ([25, 70], False)"
proof -
  have i: "py_int ''25'' = Inr 25" "py_int ''70'' = Inr 70"
    by (simp_all add: py_int_def strip_def is_space_def is_digit_def nat_of_digits_def digit_val_def Let_def)
  have d: "ConfigSequence_decode '':'' clock_limits (SStr ''25:70'') = Inr [25, 70]"
    by (simp add: ConfigSequence_decode_def ConfigSequence_fromstring_def py_split_def i clock_limits_def)
  have l: "ConfigElement_load (ConfigSequence_decode '':'' clock_limits)
             ((ConfigSequence_init '':'' clock_limits [12, 0])\<lparr>saved_value := Some (SStr ''25:70'')\<rparr>)
           = Inr (changed ((ConfigSequence_init '':'' clock_limits [12, 0])
                    \<lparr>saved_value := Some (SStr ''25:70''), el_value := [25, 70]\<rparr>))"
    by (simp add: ConfigElement_load_def d ConfigSequence_init_def)
  show ?thesis
    unfolding l
    by (simp add: ConfigSequence_init_def changed_def ConfigClock_handleKey_def
          in_ACTIONKEY_NUMBERS_def getKeyNumber_def ACTIONKEY_defs clock_digit_def clock_rejects_def
          clock_hour_def py_get_def py_index_def fields_in_range_def clock_limits_def Let_def)
qed

text \<open>
  The same clock in twenty-four-hour mode takes the digit 1 on the first column: the
  buffer \<open>2570\<close> becomes \<open>1570\<close>, and \<open>validate()\<close> clamps the minute.
\<close>

lemma ConfigClock_accepted_digit_example:
  "map_sum id (\<lambda>c. (el_value c, marked_pos c, fields_in_range c))
     (ConfigClock_handleKey False (ACTIONKEY_0 + 1) 0
        ((ConfigSequence_init '':'' clock_limits [12, 0])\<lparr>el_value := [25, 70]\<rparr>))
   = Inr ([15, 59], 1, True)"
  by code_simp

text \<open>
  Claim C6, amended. In a well-formed \<open>ConfigSequence\<close> (generic \<open>handleKey\<close>) and in a
  well-formed \<open>ConfigIP\<close> or \<open>ConfigCECAddress\<close>, any run of digit-entry actions returns
  normally and, when the run is not empty or the fields were within their limits
  before, leaves every field \<open>i\<close> within \<open>[a\<^sub>i, b\<^sub>i]\<close>. In a \<open>ConfigClock\<close> with hour and
  minute not below zero, a digit entry that the display mode does not turn away returns
  normally and leaves hour and minute within their limits, also when they were above
  them before; a digit entry that is turned away returns the clock as it was. So a clock
  within its limits stays within them under any run of digit entries, in both display
  modes.
\<close>

theorem digit_entry_fields_in_range:
  "(wf_seq s \<and> list_all digit_entry ks \<and> (ks \<noteq> [] \<or> fields_in_range s)
      \<longrightarrow> (\<exists>s'. run_keys ConfigSequence_handleKey ks s = Inr s' \<and> fields_in_range s'))
   \<and> (wf_ip t \<and> list_all digit_entry ks \<and> (ks \<noteq> [] \<or> fields_in_range t)
      \<longrightarrow> (\<exists>t'. run_keys ConfigIP_handleKey ks t = Inr t' \<and> fields_in_range t'))
   \<and> (clock_ready c \<and> digit_entry k \<and> \<not> clock_turns_away wide k c
      \<longrightarrow> (\<exists>c'. ConfigClock_handleKey wide (fst k) (snd k) c = Inr c' \<and> fields_in_range c'))
   \<and> (clock_ready c \<and> digit_entry k \<and> clock_turns_away wide k c
      \<longrightarrow> ConfigClock_handleKey wide (fst k) (snd k) c = Inr c)
   \<and> (wf_clock c0 \<and> list_all digit_entry ks
      \<longrightarrow> (\<exists>c'. run_keys (ConfigClock_handleKey wide) ks c0 = Inr c' \<and> fields_in_range c'))"
proof (intro conjI impI)
  assume a: "wf_seq s \<and> list_all digit_entry ks \<and> (ks \<noteq> [] \<or> fields_in_range s)"
  then have "wf_seq s" "list_all digit_entry ks" by simp_all
  from ConfigSequence_run_ok[OF this] a
  show "\<exists>s'. run_keys ConfigSequence_handleKey ks s = Inr s' \<and> fields_in_range s'" by blast
next
  assume a: "wf_ip t \<and> list_all digit_entry ks \<and> (ks \<noteq> [] \<or> fields_in_range t)"
  then have "wf_ip t" "list_all digit_entry ks" by simp_all
  from ConfigIP_run_ok[OF this] a
  show "\<exists>t'. run_keys ConfigIP_handleKey ks t = Inr t' \<and> fields_in_range t'" by blast
next
  assume a: "clock_ready c \<and> digit_entry k \<and> \<not> clock_turns_away wide k c"
  then have r: "clock_ready c" and d: "digit_entry k"
    and n: "\<not> clock_rejects wide (marked_pos c) (fst (clock_hour wide (hd (el_value c)))) (entry_digit k)"
    by (simp_all add: clock_turns_away_def)
  from clock_digit_accepts[OF r ConfigClock_entry(2,3)[OF d] n] ConfigClock_entry(1)[OF d, of wide c]
  show "\<exists>c'. ConfigClock_handleKey wide (fst k) (snd k) c = Inr c' \<and> fields_in_range c'"
    by (auto simp: wf_clock_def)
next
  assume a: "clock_ready c \<and> digit_entry k \<and> clock_turns_away wide k c"
  then have r: "clock_ready c" and d: "digit_entry k"
    and n: "clock_rejects wide (marked_pos c) (fst (clock_hour wide (hd (el_value c)))) (entry_digit k)"
    by (simp_all add: clock_turns_away_def)
  from clock_digit_rejects[OF r n] ConfigClock_entry(1)[OF d, of wide c]
  show "ConfigClock_handleKey wide (fst k) (snd k) c = Inr c" by simp
next
  assume a: "wf_clock c0 \<and> list_all digit_entry ks"
  then have "wf_clock c0" "list_all digit_entry ks" by simp_all
  from ConfigClock_run_ok[OF this, of wide]
  show "\<exists>c'. run_keys (ConfigClock_handleKey wide) ks c0 = Inr c' \<and> fields_in_range c'"
    by (auto simp: wf_clock_def)
qed

text \<open>
  An instance: an integer editor with the limit \<open>(0, 9999)\<close> on the out-of-range value
  \<open>[-1]\<close> and an IP editor on \<open>[0, 0, 0, 0]\<close> with overwrite off, both fed the digits
  9, 9, 9; a clock showing \<open>[25, 70]\<close> in twenty-four-hour mode, which takes the digit 1
  and turns the digit 9 away; and a clock at 23:59 fed 9, 9, 9.
\<close>

theorem digit_entry_fields_in_range_witness:
  "wf_seq (ConfigSequence_init '':'' [(0, 9999)] [- 1])
   \<and> wf_ip ((ConfigIP_init [0, 0, 0, 0] False)\<lparr>overwrite := False\<rparr>)
   \<and> list_all digit_entry [(ACTIONKEY_0 + 9, 0), (ACTIONKEY_ASCII, 57), (ACTIONKEY_0 + 9, 0)]
   \<and> (\<exists>s'. run_keys ConfigSequence_handleKey [(ACTIONKEY_0 + 9, 0), (ACTIONKEY_ASCII, 57), (ACTIONKEY_0 + 9, 0)]
           (ConfigSequence_init '':'' [(0, 9999)] [- 1]) = Inr s' \<and> fields_in_range s')
   \<and> (\<exists>t'. run_keys ConfigIP_handleKey [(ACTIONKEY_0 + 9, 0), (ACTIONKEY_ASCII, 57), (ACTIONKEY_0 + 9, 0)]
           ((ConfigIP_init [0, 0, 0, 0] False)\<lparr>overwrite := False\<rparr>) = Inr t' \<and> fields_in_range t')
   \<and> clock_ready ((ConfigSequence_init '':'' clock_limits [12, 0])\<lparr>el_value := [25, 70]\<rparr>)
   \<and> \<not> fields_in_range ((ConfigSequence_init '':'' clock_limits [12, 0])\<lparr>el_value := [25, 70]\<rparr>)
   \<and> digit_entry (ACTIONKEY_0 + 1, 0)
   \<and> \<not> clock_turns_away False (ACTIONKEY_0 + 1, 0)
          ((ConfigSequence_init '':'' clock_limits [12, 0])\<lparr>el_value := [25, 70]\<rparr>)
   \<and> (\<exists>c'. ConfigClock_handleKey False (ACTIONKEY_0 + 1) 0
           ((ConfigSequence_init '':'' clock_limits [12, 0])\<lparr>el_value := [25, 70]\<rparr>) = Inr c'
         \<and> fields_in_range c')
   \<and> digit_entry (ACTIONKEY_0 + 9, 0)
   \<and> clock_turns_away False (ACTIONKEY_0 + 9, 0)
          ((ConfigSequence_init '':'' clock_limits [12, 0])\<lparr>el_value := [25, 70]\<rparr>)
   \<and> ConfigClock_handleKey False (ACTIONKEY_0 + 9) 0
          ((ConfigSequence_init '':'' clock_limits [12, 0])\<lparr>el_value := [25, 70]\<rparr>)
       = Inr ((ConfigSequence_init '':'' clock_limits [12, 0])\<lparr>el_value := [25, 70]\<rparr>)
   \<and> wf_clock (ConfigSequence_init '':'' clock_limits [23, 59])
   \<and> (\<exists>c'. run_keys (ConfigClock_handleKey True) [(ACTIONKEY_0 + 9, 0), (ACTIONKEY_ASCII, 57), (ACTIONKEY_0 + 9, 0)]
           (ConfigSequence_init '':'' clock_limits [23, 59]) = Inr c' \<and> fields_in_range c')"
proof -
  let ?s = "(ConfigSequence_init '':'' [(0, 9999)] [- 1])"
  let ?t = "(ConfigIP_init [0, 0, 0, 0] False)\<lparr>overwrite := False\<rparr>"
  let ?ks = "[(ACTIONKEY_0 + 9, 0), (ACTIONKEY_ASCII, 57), (ACTIONKEY_0 + 9, 0)]"
  let ?c = "(ConfigSequence_init '':'' clock_limits [12, 0])\<lparr>el_value := [25, 70]\<rparr>"
  let ?d = "ConfigSequence_init '':'' clock_limits [23, 59]"
  have "length (str_int 9999) = 4" by (simp add: str_int_def digits_of.simps)
  then have h1: "wf_seq ?s" by (simp add: wf_seq_def limits_ok_def ConfigSequence_init_def)
  have h2: "wf_ip ?t" by (simp add: wf_ip_def limits_ok_def ConfigIP_init_def ip_limits_def)
  have h3: "list_all digit_entry ?ks"
    by (simp add: digit_entry_def in_ACTIONKEY_NUMBERS_def ACTIONKEY_defs)
  have h4: "?ks \<noteq> []" by simp
  have w: "length (str_int 23) = 2" "length (str_int 59) = 2" by (simp_all add: str_int_def digits_of.simps)
  then have h5: "wf_clock ?d"
    by (simp add: wf_clock_def wf_seq_def limits_ok_def fields_in_range_def ConfigSequence_init_def
          clock_limits_def)
  from w have h6: "clock_ready ?c"
    by (simp add: clock_ready_def wf_seq_def limits_ok_def ConfigSequence_init_def clock_limits_def)
  have h7: "\<not> fields_in_range ?c"
    by (simp add: fields_in_range_def ConfigSequence_init_def clock_limits_def)
  have h8: "digit_entry (ACTIONKEY_0 + 1, 0)" "digit_entry (ACTIONKEY_0 + 9, 0)"
    by (simp_all add: digit_entry_def in_ACTIONKEY_NUMBERS_def ACTIONKEY_defs)
  have h9: "\<not> clock_turns_away False (ACTIONKEY_0 + 1, 0) ?c" "clock_turns_away False (ACTIONKEY_0 + 9, 0) ?c"
    by (simp_all add: clock_turns_away_def clock_rejects_def clock_hour_def entry_digit_def
          ConfigSequence_init_def ACTIONKEY_defs)
  from digit_entry_fields_in_range[of ?s ?ks ?t ?c "(ACTIONKEY_0 + 1, 0)" False ?d] h1 h2 h3 h4 h6 h8(1) h9(1)
  have a: "\<exists>s'. run_keys ConfigSequence_handleKey ?ks ?s = Inr s' \<and> fields_in_range s'"
          "\<exists>t'. run_keys ConfigIP_handleKey ?ks ?t = Inr t' \<and> fields_in_range t'"
          "\<exists>c'. ConfigClock_handleKey False (ACTIONKEY_0 + 1) 0 ?c = Inr c' \<and> fields_in_range c'"
    by simp_all
  from digit_entry_fields_in_range[of ?s ?ks ?t ?c "(ACTIONKEY_0 + 9, 0)" False ?d] h6 h8(2) h9(2)
  have b: "ConfigClock_handleKey False (ACTIONKEY_0 + 9) 0 ?c = Inr ?c" by simp
  from digit_entry_fields_in_range[of ?s ?ks ?t ?c "(ACTIONKEY_0 + 9, 0)" True ?d] h3 h5
  have c: "\<exists>c'. run_keys (ConfigClock_handleKey True) ?ks ?d = Inr c' \<and> fields_in_range c'" by simp
  from h1 h2 h3 h5 h6 h7 h8 h9 a b c show ?thesis by blast
qed

end
